theory Spec2Isabelle
  imports Main "HOL-Library.Product_Lexorder"
begin

section \<open>Value range analysis on SSI form (package vrp)\<close>

text \<open>
  A shallow embedding of \<^verbatim>\<open>go/vrp/vrp.go\<close>. Panics of the Go code are values of
  type \<open>error\<close>; a function that can panic returns \<open>error + 'a\<close> with \<open>Inl\<close> for the
  panic. Values of type \<^verbatim>\<open>*big.Int\<close> are addresses into an explicit heap, because
  the methods of \<^verbatim>\<open>math/big\<close> write their result into the receiver.
\<close>

subsection \<open>Panics\<close>

datatype error =
    NegInfAdd              \<comment> \<open>\<^verbatim>\<open>panic("-\<infinity> + y is not defined")\<close>\<close>
  | InconsistentInterval   \<comment> \<open>\<^verbatim>\<open>panic("inconsistent interval")\<close>\<close>
  | UnhandledToken         \<comment> \<open>\<^verbatim>\<open>panic("unhandled token ...")\<close>\<close>
  | UnhandledType          \<comment> \<open>\<^verbatim>\<open>panic("unhandled type ...")\<close>\<close>
  | UnhandledControl       \<comment> \<open>\<^verbatim>\<open>panic("unhandled control ...")\<close>\<close>
  | UnexpectedType         \<comment> \<open>\<^verbatim>\<open>panic("unexpected type ...")\<close>\<close>
  | Unreachable            \<comment> \<open>\<^verbatim>\<open>panic("unreachable")\<close>\<close>
  | EmptySCC               \<comment> \<open>\<^verbatim>\<open>panic("WTF")\<close>\<close>
  | NilDereference         \<comment> \<open>run-time panic: method call on a nil interface or pointer\<close>
  | IndexOutOfRange        \<comment> \<open>run-time panic: slice index out of range\<close>

subsection \<open>Tokens\<close>

text \<open>The operators of \<^verbatim>\<open>go/token\<close> that an \<^verbatim>\<open>ir.BinOp\<close> can carry.\<close>

datatype token =
    ADD | SUB | MUL | QUO | REM
  | AND | OR | XOR | SHL | SHR | AND_NOT
  | EQL | LSS | GTR | NEQ | LEQ | GEQ

fun flipToken :: "token \<Rightarrow> error + token" where
  "flipToken LSS = Inr GTR"
| "flipToken GTR = Inr LSS"
| "flipToken LEQ = Inr GEQ"
| "flipToken GEQ = Inr LEQ"
| "flipToken EQL = Inr EQL"
| "flipToken NEQ = Inr NEQ"
| "flipToken _ = Inl UnhandledToken"

fun negateToken :: "token \<Rightarrow> error + token" where
  "negateToken LSS = Inr GEQ"
| "negateToken GTR = Inr LEQ"
| "negateToken LEQ = Inr GTR"
| "negateToken GEQ = Inr LSS"
| "negateToken EQL = Inr NEQ"
| "negateToken NEQ = Inr EQL"
| "negateToken _ = Inl UnhandledToken"

definition comparisons :: "token set" where
  "comparisons = {LSS, GTR, LEQ, GEQ, EQL, NEQ}"

text \<open>Sequencing of two computations that can panic.\<close>

definition andThen :: "error + 'a \<Rightarrow> ('a \<Rightarrow> error + 'b) \<Rightarrow> error + 'b" where
  "andThen m f = (case m of Inl e \<Rightarrow> Inl e | Inr x \<Rightarrow> f x)"

subsection \<open>Arbitrary-precision integers behind pointers\<close>

text \<open>
  A \<^verbatim>\<open>*big.Int\<close> is an address; the heap maps every allocated address to the integer
  stored there, and \<open>brk\<close> is the next unused address. The methods below are those of
  \<^verbatim>\<open>math/big\<close> as its documentation gives them: \<^verbatim>\<open>z.Add(x, y)\<close> sets \<open>z\<close> to
  \<open>x + y\<close> and returns \<open>z\<close>; \<^verbatim>\<open>z.Sub(x, y)\<close> sets \<open>z\<close> to \<open>x - y\<close> and returns
  \<open>z\<close>. The operands \<open>x\<close> and \<open>y\<close> are passed as the integers read from the heap
  at the call.
\<close>

type_synonym bigptr = nat

record heap =
  cells :: "bigptr \<Rightarrow> int"
  brk :: bigptr

definition deref :: "heap \<Rightarrow> bigptr \<Rightarrow> int" where
  "deref h p = cells h p"

definition NewInt :: "int \<Rightarrow> heap \<Rightarrow> bigptr \<times> heap" where
  "NewInt v h = (brk h, h\<lparr>cells := (cells h)(brk h := v), brk := Suc (brk h)\<rparr>)"

definition big_Add :: "bigptr \<Rightarrow> int \<Rightarrow> int \<Rightarrow> heap \<Rightarrow> bigptr \<times> heap" where
  "big_Add z x y h = (z, h\<lparr>cells := (cells h)(z := x + y)\<rparr>)"

definition big_Sub :: "bigptr \<Rightarrow> int \<Rightarrow> int \<Rightarrow> heap \<Rightarrow> bigptr \<times> heap" where
  "big_Sub z x y h = (z, h\<lparr>cells := (cells h)(z := x - y)\<rparr>)"

text \<open>The package variable \<^verbatim>\<open>one = big.NewInt(1)\<close>; nothing writes to it.\<close>

definition one :: int where
  "one = 1"

definition big_Cmp :: "heap \<Rightarrow> bigptr \<Rightarrow> bigptr \<Rightarrow> int" where
  "big_Cmp h x y = (if cells h x < cells h y then - 1 else if cells h x = cells h y then 0 else 1)"

definition big_Sign :: "heap \<Rightarrow> bigptr \<Rightarrow> int" where
  "big_Sign h x = (if cells h x < 0 then - 1 else if cells h x = 0 then 0 else 1)"

text \<open>A heap holding the given integers at the addresses \<open>0, 1, ...\<close>.\<close>

definition heap_of :: "int list \<Rightarrow> heap" where
  "heap_of xs = \<lparr>cells = (\<lambda>p. if p < length xs then xs ! p else 0), brk = length xs\<rparr>"

subsection \<open>Numeric\<close>

text \<open>
  \<^verbatim>\<open>Infinity{negative}\<close> and \<^verbatim>\<open>Number{*big.Int}\<close>. A nil \<^verbatim>\<open>Numeric\<close> interface is
  \<open>None\<close> of type \<open>Numeric option\<close>.
\<close>

datatype Numeric = Infinity bool | Number bigptr

definition Inf_num :: Numeric where
  "Inf_num = Infinity False"

definition NegInf :: Numeric where
  "NegInf = Infinity True"

fun Negative :: "heap \<Rightarrow> Numeric \<Rightarrow> bool" where
  "Negative h (Infinity negative) = negative"
| "Negative h (Number p) = (big_Sign h p = - 1)"

text \<open>
  \<^verbatim>\<open>Add\<close>: the first operand is tested first; a negative infinity there panics,
  a positive one is returned. Otherwise an infinite second operand is returned.
  For two numbers, \<^verbatim>\<open>out := big.NewInt(0); out = nx.Number.Add(out, ny.Number)\<close>
  calls \<^verbatim>\<open>Add\<close> with receiver \<^verbatim>\<open>nx.Number\<close>.
\<close>

fun Add :: "Numeric \<Rightarrow> Numeric \<Rightarrow> heap \<Rightarrow> error + (Numeric \<times> heap)" where
  "Add (Infinity negative) y h =
     (if negative then Inl NegInfAdd else Inr (Infinity negative, h))"
| "Add (Number nx) (Infinity negative) h = Inr (Infinity negative, h)"
| "Add (Number nx) (Number ny) h =
     (let (out, h1) = NewInt 0 h;
          (out', h2) = big_Add nx (deref h1 out) (deref h1 ny) h1
      in Inr (Number out', h2))"

text \<open>The integer a finite \<^verbatim>\<open>Numeric\<close> stands for in a heap.\<close>

fun finite_value :: "heap \<Rightarrow> Numeric \<Rightarrow> int option" where
  "finite_value h (Infinity negative) = None"
| "finite_value h (Number p) = Some (deref h p)"

text \<open>
  \<^verbatim>\<open>Cmp\<close>: \<^verbatim>\<open>x == y\<close> on interfaces compares the dynamic types and the struct
  values, for \<^verbatim>\<open>Number\<close> the pointers.
\<close>

fun Cmp :: "heap \<Rightarrow> Numeric \<Rightarrow> Numeric \<Rightarrow> int" where
  "Cmp h x y =
     (if x = y then 0
      else case x of
        Infinity xneg \<Rightarrow>
          (case y of
             Infinity yneg \<Rightarrow> if xneg = yneg then 0 else if xneg then - 1 else 1
           | Number q \<Rightarrow> if xneg then - 1 else 1)
      | Number p \<Rightarrow>
          (case y of
             Infinity yneg \<Rightarrow> if yneg then 1 else - 1
           | Number q \<Rightarrow> big_Cmp h p q))"

text \<open>
  A method call \<^verbatim>\<open>x.Cmp(y)\<close> on interface values: a nil receiver is a run-time
  panic; with a nil argument \<^verbatim>\<open>Cmp\<close> reaches the default case of its type switch.
\<close>

definition Cmp_method :: "heap \<Rightarrow> Numeric option \<Rightarrow> Numeric option \<Rightarrow> error + int" where
  "Cmp_method h x y =
     (case x of
        None \<Rightarrow> Inl NilDereference
      | Some x' \<Rightarrow> (case y of None \<Rightarrow> Inl UnhandledType | Some y' \<Rightarrow> Inr (Cmp h x' y')))"

subsection \<open>Interval\<close>

record Interval =
  Lower :: "Numeric option"
  Upper :: "Numeric option"

definition NewInterval :: "Numeric option \<Rightarrow> Numeric option \<Rightarrow> error + Interval" where
  "NewInterval l u =
     (if (l = None \<and> u \<noteq> None) \<or> (l \<noteq> None \<and> u = None) then Inl InconsistentInterval
      else Inr \<lparr>Lower = l, Upper = u\<rparr>)"

text \<open>The package variable \<^verbatim>\<open>Empty = NewInterval(Inf, NegInf)\<close>.\<close>

definition Empty_var :: Interval where
  "Empty_var = \<lparr>Lower = Some Inf_num, Upper = Some NegInf\<rparr>"

text \<open>\<^verbatim>\<open>NewInterval(nil, nil)\<close>, also the zero value of the struct.\<close>

definition undefined_interval :: Interval where
  "undefined_interval = \<lparr>Lower = None, Upper = None\<rparr>"

definition Undefined :: "Interval \<Rightarrow> error + bool" where
  "Undefined ival =
     (if (Lower ival = None \<and> Upper ival \<noteq> None) \<or> (Lower ival \<noteq> None \<and> Upper ival = None)
      then Inl InconsistentInterval
      else Inr (Lower ival = None))"

definition Empty :: "heap \<Rightarrow> Interval \<Rightarrow> error + bool" where
  "Empty h ival =
     andThen (Undefined ival) (\<lambda>undef.
       if undef then Inr False
       else andThen (Cmp_method h (Upper ival) (Lower ival)) (\<lambda>c.
         if c = - 1 then Inr True else Inr False))"

definition Union_ival :: "heap \<Rightarrow> Interval \<Rightarrow> Interval \<Rightarrow> error + Interval" where
  "Union_ival h ival oval =
     andThen (Empty h ival) (\<lambda>e1. if e1 then Inr oval else
     andThen (Empty h oval) (\<lambda>e2. if e2 then Inr ival else
     andThen (Undefined ival) (\<lambda>u1. if u1 then Inr oval else
     andThen (Undefined oval) (\<lambda>u2. if u2 then Inr ival else
     andThen (Cmp_method h (Lower ival) (Lower oval)) (\<lambda>cl.
     andThen (Cmp_method h (Upper ival) (Upper oval)) (\<lambda>cu.
       NewInterval (if cl = - 1 then Lower ival else Lower oval)
                   (if cu = 1 then Upper ival else Upper oval)))))))"

definition Intersect :: "heap \<Rightarrow> Interval \<Rightarrow> Interval \<Rightarrow> error + Interval" where
  "Intersect h ival oval =
     andThen (Empty h ival) (\<lambda>e1. if e1 then Inr Empty_var else
     andThen (Empty h oval) (\<lambda>e2. if e2 then Inr Empty_var else
     andThen (Undefined ival) (\<lambda>u1. if u1 then Inr oval else
     andThen (Undefined oval) (\<lambda>u2. if u2 then Inr ival else
     andThen (Cmp_method h (Lower ival) (Lower oval)) (\<lambda>cl.
     andThen (Cmp_method h (Upper ival) (Upper oval)) (\<lambda>cu.
       NewInterval (if cl = 1 then Lower ival else Lower oval)
                   (if cu = - 1 then Upper ival else Upper oval)))))))"

text \<open>
  \<^verbatim>\<open>Equal\<close>. In Go \<^verbatim>\<open>&&\<close> binds tighter than \<^verbatim>\<open>||\<close>, so the expression is
  \<^verbatim>\<open>A || (B && C) || (D && E && F)\<close>, evaluated left to right with short circuit.
\<close>

definition Equal :: "heap \<Rightarrow> Interval \<Rightarrow> Interval \<Rightarrow> error + bool" where
  "Equal h ival oval =
     (if Lower ival = None \<and> Lower oval = None then Inr True
      else if (Lower ival \<noteq> None \<and> Lower oval \<noteq> None) \<and> (Upper ival = None \<and> Upper oval = None)
        then Inr True
      else if Upper ival \<noteq> None \<and> Upper oval \<noteq> None then
        andThen (Cmp_method h (Lower ival) (Lower oval)) (\<lambda>cl.
          if cl = 0 then andThen (Cmp_method h (Upper ival) (Upper oval)) (\<lambda>cu. Inr (cu = 0))
          else Inr False)
      else Inr False)"

text \<open>\<^verbatim>\<open>infinity()\<close> is \<^verbatim>\<open>NewInterval(NegInf, Inf)\<close>.\<close>

definition infinity :: Interval where
  "infinity = \<lparr>Lower = Some NegInf, Upper = Some Inf_num\<rparr>"

text \<open>
  The data-model invariant of an interval: both endpoints absent or both present
  (what \<^verbatim>\<open>NewInterval\<close> enforces).
\<close>

definition consistent :: "Interval \<Rightarrow> bool" where
  "consistent ival = ((Lower ival = None) = (Upper ival = None))"

text \<open>
  Equality of intervals as the package decides it, with all empty intervals
  identified: \<open>a\<close> and \<open>b\<close> are \<open>Equal\<close>, or both are \<open>Empty\<close>.
\<close>

definition same_interval :: "heap \<Rightarrow> Interval \<Rightarrow> Interval \<Rightarrow> bool" where
  "same_interval h a b =
     (Equal h a b = Inr True \<or> (Empty h a = Inr True \<and> Empty h b = Inr True))"

subsection \<open>The intermediate representation\<close>

text \<open>
  The package reads the IR of \<^verbatim>\<open>honnef.co/go/tools/go/ir\<close>. Values, instructions
  and basic blocks are pointers there and are compared by identity, so they are
  names here. What the analysis reads of an instruction is its kind and operands,
  whether it is an \<^verbatim>\<open>ir.Value\<close>, whether its type is a basic integer type, and its
  referrers.
\<close>

type_synonym "value" = nat
type_synonym block = nat

text \<open>\<^verbatim>\<open>constant.Val\<close> of a constant: an \<^verbatim>\<open>int64\<close> or \<^verbatim>\<open>*big.Int\<close>, or anything else.\<close>

datatype constval = IntVal int | OtherVal

datatype instr =
    Const constval               \<comment> \<open>\<^verbatim>\<open>*ir.Const\<close> with its \<^verbatim>\<open>Value\<close>\<close>
  | BinOp token "value" "value"      \<comment> \<open>\<^verbatim>\<open>*ir.BinOp\<close> with \<^verbatim>\<open>Op\<close>, \<^verbatim>\<open>X\<close>, \<^verbatim>\<open>Y\<close>\<close>
  | Phi "value list"             \<comment> \<open>\<^verbatim>\<open>*ir.Phi\<close> with \<^verbatim>\<open>Edges\<close>\<close>
  | Sigma "value" block            \<comment> \<open>\<^verbatim>\<open>*ir.Sigma\<close> with \<^verbatim>\<open>X\<close>, \<^verbatim>\<open>From\<close>\<close>
  | If "value"                     \<comment> \<open>\<^verbatim>\<open>*ir.If\<close> with \<^verbatim>\<open>Cond\<close>; not a value\<close>
  | OtherValue                   \<comment> \<open>any other instruction that is an \<^verbatim>\<open>ir.Value\<close>\<close>
  | OtherInstr                   \<comment> \<open>any other instruction that is not a value\<close>

text \<open>
  Modelled from the spec: the type \<^verbatim>\<open>ir.BasicBlock\<close> is not part of the package; a
  block holds an ordered instruction list, a list of successors, and an optional
  controlling instruction (what \<^verbatim>\<open>Control()\<close> returns, nil when absent).
\<close>

record BasicBlock =
  Instrs :: "value list"
  Succs :: "block list"
  Control :: "value option"

text \<open>
  Modelled from the spec: the type \<^verbatim>\<open>ir.Function\<close> with its blocks in order, and for
  each instruction what the type interface and the use/def interface expose.
\<close>

record Function =
  Blocks :: "block list"
  block_of :: "block \<Rightarrow> BasicBlock"
  instr_of :: "value \<Rightarrow> instr"
  is_integer :: "value \<Rightarrow> bool"
  Referrers :: "value \<Rightarrow> value list"

text \<open>The type assertion \<^verbatim>\<open>instr.(ir.Value)\<close>.\<close>

fun is_Value :: "instr \<Rightarrow> bool" where
  "is_Value (If c) = False"
| "is_Value OtherInstr = False"
| "is_Value _ = True"

text \<open>The type assertion \<^verbatim>\<open>x.(*ir.Const)\<close>: the constant, or nil.\<close>

fun as_Const :: "instr \<Rightarrow> constval option" where
  "as_Const (Const c) = Some c"
| "as_Const _ = None"

subsection \<open>Intersections and the constraint graph\<close>

datatype Intersection =
    BasicIntersection Interval
  | SymbolicIntersection token "value"

text \<open>The method \<^verbatim>\<open>Interval()\<close> of both kinds of intersection.\<close>

fun Interval_of :: "Intersection \<Rightarrow> error + Interval" where
  "Interval_of (BasicIntersection interval) = Inr interval"
| "Interval_of (SymbolicIntersection op v) = NewInterval None None"

text \<open>
  The three maps of the constraint graph. \<open>nodes\<close> is a Go map used as a set; a
  missing key of \<open>intervals\<close> reads as the zero \<^verbatim>\<open>Interval\<close>, a missing key of
  \<open>intersections\<close> as the nil interface.
\<close>

record constraintGraph =
  intersections :: "value \<rightharpoonup> Intersection"
  nodes :: "value set"
  intervals :: "value \<rightharpoonup> Interval"

definition interval_at :: "constraintGraph \<Rightarrow> value \<Rightarrow> Interval" where
  "interval_at cg v = (case intervals cg v of None \<Rightarrow> undefined_interval | Some i \<Rightarrow> i)"

text \<open>
  \<^verbatim>\<open>constantToBigInt\<close> allocates a fresh integer and copies the constant into it;
  \<^verbatim>\<open>constantToNumber\<close> wraps it.
\<close>

definition constantToBigInt :: "constval \<Rightarrow> heap \<Rightarrow> error + (bigptr \<times> heap)" where
  "constantToBigInt v h =
     (let (val, h1) = NewInt 0 h
      in case v of
           IntVal n \<Rightarrow> Inr (val, h1\<lparr>cells := (cells h1)(val := n)\<rparr>)
         | OtherVal \<Rightarrow> Inl UnexpectedType)"

definition constantToNumber :: "constval \<Rightarrow> heap \<Rightarrow> error + (Numeric \<times> heap)" where
  "constantToNumber v h = andThen (constantToBigInt v h) (\<lambda>(p, h1). Inr (Number p, h1))"

subsection \<open>Transfer functions\<close>

text \<open>
  The \<^verbatim>\<open>token.ADD\<close> case of \<^verbatim>\<open>eval\<close>, for operand intervals with endpoints
  \<open>a, b\<close> and \<open>c, d\<close>. \<^verbatim>\<open>a.Add(c)\<close> may write to the heap, and the sign tests
  that follow read the heap after that.
\<close>

definition eval_add_lower :: "Numeric \<Rightarrow> Numeric \<Rightarrow> heap \<Rightarrow> error + (Numeric \<times> heap)" where
  "eval_add_lower a c h =
     (if a \<noteq> NegInf \<and> c \<noteq> NegInf then
        andThen (Add a c h) (\<lambda>(l, h1).
          if Negative h1 a = Negative h1 c \<and> Negative h1 a \<noteq> Negative h1 l
          then Inr (NegInf, h1) else Inr (l, h1))
      else Inr (NegInf, h))"

definition eval_add_upper :: "Numeric \<Rightarrow> Numeric \<Rightarrow> heap \<Rightarrow> error + (Numeric \<times> heap)" where
  "eval_add_upper b d h =
     (if b \<noteq> Inf_num \<and> d \<noteq> Inf_num then
        andThen (Add b d h) (\<lambda>(u, h1).
          if Negative h1 b = Negative h1 d \<and> Negative h1 b \<noteq> Negative h1 u
          then Inr (Inf_num, h1) else Inr (u, h1))
      else Inr (Inf_num, h))"

text \<open>The \<^verbatim>\<open>*ir.BinOp\<close> case of \<^verbatim>\<open>eval\<close>.\<close>

definition eval_BinOp :: "constraintGraph \<Rightarrow> token \<Rightarrow> value \<Rightarrow> value \<Rightarrow> heap \<Rightarrow> error + (Interval \<times> heap)" where
  "eval_BinOp cg op X Y h =
     (let xval = interval_at cg X; yval = interval_at cg Y in
      andThen (Undefined xval) (\<lambda>xu.
      andThen (if xu then Inr True else Undefined yval) (\<lambda>undef.
        if undef then andThen (NewInterval None None) (\<lambda>i. Inr (i, h))
        else case op of
          ADD \<Rightarrow>
            (case (Lower xval, Upper xval, Lower yval, Upper yval) of
               (Some a, Some b, Some c, Some d) \<Rightarrow>
                 andThen (eval_add_lower a c h) (\<lambda>(l, h1).
                 andThen (eval_add_upper b d h1) (\<lambda>(u, h2).
                 andThen (NewInterval (Some l) (Some u)) (\<lambda>i. Inr (i, h2))))
             | _ \<Rightarrow> Inl NilDereference)
        | _ \<Rightarrow> Inl UnhandledToken)))"

text \<open>The \<^verbatim>\<open>*ir.Phi\<close> case: the union of the intervals of the edges, from the first on.\<close>

fun eval_Phi_rest :: "constraintGraph \<Rightarrow> heap \<Rightarrow> Interval \<Rightarrow> value list \<Rightarrow> error + Interval" where
  "eval_Phi_rest cg h ret [] = Inr ret"
| "eval_Phi_rest cg h ret (other # rest) =
     andThen (Union_ival h ret (interval_at cg other)) (\<lambda>ret'. eval_Phi_rest cg h ret' rest)"

definition eval_Phi :: "constraintGraph \<Rightarrow> value list \<Rightarrow> heap \<Rightarrow> error + Interval" where
  "eval_Phi cg Edges h =
     (case Edges of
        [] \<Rightarrow> Inl IndexOutOfRange
      | e # rest \<Rightarrow> eval_Phi_rest cg h (interval_at cg e) rest)"

text \<open>
  The \<^verbatim>\<open>*ir.Sigma\<close> case:
  \<^verbatim>\<open>cg.intervals[v].Intersect(cg.intersections[v].Interval())\<close>.
\<close>

definition eval_Sigma :: "constraintGraph \<Rightarrow> value \<Rightarrow> heap \<Rightarrow> error + Interval" where
  "eval_Sigma cg v h =
     (case intersections cg v of
        None \<Rightarrow> Inl NilDereference
      | Some isec \<Rightarrow> andThen (Interval_of isec) (\<lambda>i. Intersect h (interval_at cg v) i))"

definition eval :: "Function \<Rightarrow> constraintGraph \<Rightarrow> value \<Rightarrow> heap \<Rightarrow> error + (Interval \<times> heap)" where
  "eval fn cg v h =
     (case instr_of fn v of
        Const c \<Rightarrow>
          andThen (constantToNumber c h) (\<lambda>(l, h1).
          andThen (constantToNumber c h1) (\<lambda>(u, h2).
          andThen (NewInterval (Some l) (Some u)) (\<lambda>i. Inr (i, h2))))
      | BinOp op X Y \<Rightarrow> eval_BinOp cg op X Y h
      | Phi Edges \<Rightarrow> andThen (eval_Phi cg Edges h) (\<lambda>i. Inr (i, h))
      | Sigma X From \<Rightarrow> andThen (eval_Sigma cg v h) (\<lambda>i. Inr (i, h))
      | _ \<Rightarrow> Inl UnhandledType)"

subsection \<open>Building the constraint graph\<close>

text \<open>A loop over a slice whose body can panic.\<close>

fun for_each :: "('a \<Rightarrow> 's \<Rightarrow> error + 's) \<Rightarrow> 'a list \<Rightarrow> 's \<Rightarrow> error + 's" where
  "for_each body [] s = Inr s"
| "for_each body (x # xs) s = andThen (body x s) (for_each body xs)"

text \<open>The test \<^verbatim>\<open>v.From.Succs[1] == b\<close>.\<close>

definition in_else_branch :: "Function \<Rightarrow> block \<Rightarrow> block \<Rightarrow> error + bool" where
  "in_else_branch fn From b =
     (case Succs (block_of fn From) of
        s0 # s1 # rest \<Rightarrow> Inr (s1 = b)
      | _ \<Rightarrow> Inl IndexOutOfRange)"

text \<open>
  The switch on the operator when a variable is compared with the constant \<open>k\<close>;
  \<open>val\<close> is the fresh integer holding \<open>k\<close>.
\<close>

definition constant_intersection :: "token \<Rightarrow> bigptr \<Rightarrow> heap \<Rightarrow> error + (Intersection \<times> heap)" where
  "constant_intersection op val h =
     (case op of
        LSS \<Rightarrow>
          (let (p, h1) = big_Sub val (deref h val) one h
           in andThen (NewInterval (Some NegInf) (Some (Number p))) (\<lambda>i. Inr (BasicIntersection i, h1)))
      | GTR \<Rightarrow>
          (let (p, h1) = big_Add val (deref h val) one h
           in andThen (NewInterval (Some (Number p)) (Some Inf_num)) (\<lambda>i. Inr (BasicIntersection i, h1)))
      | LEQ \<Rightarrow> andThen (NewInterval (Some NegInf) (Some (Number val))) (\<lambda>i. Inr (BasicIntersection i, h))
      | GEQ \<Rightarrow> andThen (NewInterval (Some (Number val)) (Some Inf_num)) (\<lambda>i. Inr (BasicIntersection i, h))
      | NEQ \<Rightarrow> Inr (BasicIntersection infinity, h)
      | EQL \<Rightarrow> andThen (NewInterval (Some (Number val)) (Some (Number val))) (\<lambda>i. Inr (BasicIntersection i, h))
      | _ \<Rightarrow> Inl UnhandledToken)"

text \<open>The switch on the operator when two variables are compared.\<close>

definition symbolic_intersection :: "token \<Rightarrow> value \<Rightarrow> error + Intersection" where
  "symbolic_intersection op variable =
     (if op = LSS \<or> op = GTR \<or> op = LEQ \<or> op = GEQ \<or> op = EQL
        then Inr (SymbolicIntersection op variable)
      else if op = NEQ then Inr (BasicIntersection infinity)
      else Inl UnhandledToken)"

text \<open>
  The switch on \<^verbatim>\<open>v.From.Control()\<close> for a sigma node \<open>v\<close> with operand \<open>X\<close> and
  origin \<open>From\<close>, met in block \<open>b\<close>. The result is the intersection assigned to
  \<open>v\<close> there, or \<open>None\<close> when the switch assigns nothing.
\<close>

definition XXX_sigma :: "Function \<Rightarrow> block \<Rightarrow> value \<Rightarrow> block \<Rightarrow> heap \<Rightarrow> error + (Intersection option \<times> heap)" where
  "XXX_sigma fn b X From h =
     (case Control (block_of fn From) of
        None \<Rightarrow> Inl UnhandledControl
      | Some ctrl \<Rightarrow>
         (case instr_of fn ctrl of
            If Cond \<Rightarrow>
              (case instr_of fn Cond of
                 BinOp op cX cY \<Rightarrow>
                   (let lc = as_Const (instr_of fn cX); rc = as_Const (instr_of fn cY) in
                    if lc \<noteq> None \<and> rc \<noteq> None then Inr (None, h)
                    else if (lc \<noteq> None \<and> rc = None) \<or> (lc = None \<and> rc \<noteq> None) then
                      andThen (case lc of
                                 Some k \<Rightarrow> andThen (flipToken op) (\<lambda>op1. Inr (cY, k, op1))
                               | None \<Rightarrow> (case rc of Some k \<Rightarrow> Inr (cX, k, op) | None \<Rightarrow> Inl Unreachable))
                        (\<lambda>(variable, k, op1).
                           if variable = X then
                             andThen (in_else_branch fn From b) (\<lambda>els.
                             andThen (if els then negateToken op1 else Inr op1) (\<lambda>op2.
                             andThen (constantToBigInt k h) (\<lambda>(val, h1).
                             andThen (constant_intersection op2 val h1) (\<lambda>(isec, h2).
                               Inr (Some isec, h2)))))
                           else Inr (None, h))
                    else if lc = None \<and> rc = None then
                      (if cX = cY then Inr (None, h)
                       else if cX \<noteq> X \<and> cY \<noteq> X then Inr (None, h)
                       else
                         andThen (if cX = X then Inr (cY, op)
                                  else andThen (flipToken op) (\<lambda>op1. Inr (cX, op1)))
                           (\<lambda>(variable, op1).
                              andThen (in_else_branch fn From b) (\<lambda>els.
                              andThen (if els then negateToken op1 else Inr op1) (\<lambda>op2.
                              andThen (symbolic_intersection op2 variable) (\<lambda>isec.
                                Inr (Some isec, h))))))
                    else Inl Unreachable)
               | _ \<Rightarrow> Inr (None, h))
          | _ \<Rightarrow> Inl UnhandledControl))"

text \<open>The body of the loop over the instructions of block \<open>b\<close>.\<close>

definition XXX_instr :: "Function \<Rightarrow> block \<Rightarrow> value \<Rightarrow> constraintGraph \<times> heap \<Rightarrow> error + (constraintGraph \<times> heap)" where
  "XXX_instr fn b v = (\<lambda>(cg, h).
     if \<not> is_Value (instr_of fn v) then Inr (cg, h)
     else if \<not> is_integer fn v then Inr (cg, h)
     else
       (let cg1 = cg\<lparr>nodes := insert v (nodes cg)\<rparr> in
        case instr_of fn v of
          Sigma X From \<Rightarrow>
            (let cg2 = cg1\<lparr>intersections := (intersections cg1)(v \<mapsto> BasicIntersection infinity)\<rparr> in
             andThen (XXX_sigma fn b X From h) (\<lambda>(assigned, h1).
               case assigned of
                 None \<Rightarrow> Inr (cg2, h1)
               | Some isec \<Rightarrow> Inr (cg2\<lparr>intersections := (intersections cg2)(v \<mapsto> isec)\<rparr>, h1)))
        | _ \<Rightarrow> Inr (cg1, h)))"

definition XXX_block :: "Function \<Rightarrow> block \<Rightarrow> constraintGraph \<times> heap \<Rightarrow> error + (constraintGraph \<times> heap)" where
  "XXX_block fn b = for_each (XXX_instr fn b) (Instrs (block_of fn b))"

definition empty_graph :: constraintGraph where
  "empty_graph = \<lparr>intersections = Map.empty, nodes = {}, intervals = Map.empty\<rparr>"

text \<open>The first part of \<^verbatim>\<open>XXX\<close>: the loop over all blocks that fills the graph.\<close>

definition XXX_build :: "Function \<Rightarrow> heap \<Rightarrow> error + (constraintGraph \<times> heap)" where
  "XXX_build fn h = for_each (XXX_block fn) (Blocks fn) (empty_graph, h)"

subsection \<open>Widening\<close>

text \<open>
  The meet widening operator: the update of \<^verbatim>\<open>cg.intervals[op]\<close> from \<open>old\<close> and
  \<open>new\<close>. The conditions are evaluated in the order of the source, the second
  operand of \<^verbatim>\<open>&&\<close> only when the first holds. The last condition is the source's
  \<^verbatim>\<open>new.Upper.Cmp(new.Upper) == 1\<close>.
\<close>

definition set_interval :: "constraintGraph \<Rightarrow> value \<Rightarrow> Interval \<Rightarrow> constraintGraph" where
  "set_interval cg op i = cg\<lparr>intervals := (intervals cg)(op \<mapsto> i)\<rparr>"

definition widen :: "constraintGraph \<Rightarrow> value \<Rightarrow> Interval \<Rightarrow> Interval \<Rightarrow> heap \<Rightarrow> error + constraintGraph" where
  "widen cg op old new h =
     andThen (Undefined old) (\<lambda>undef.
       if undef then Inr (set_interval cg op new)
       else
         andThen (Cmp_method h (Lower new) (Lower old)) (\<lambda>c1.
         andThen (if c1 = - 1
                  then andThen (Cmp_method h (Upper new) (Upper old)) (\<lambda>c2. Inr (c2 = 1))
                  else Inr False) (\<lambda>both.
           if both then Inr (set_interval cg op infinity)
           else
             andThen (Cmp_method h (Lower new) (Lower old)) (\<lambda>c3.
               if c3 = - 1
               then andThen (NewInterval (Some NegInf) (Upper old)) (\<lambda>i. Inr (set_interval cg op i))
               else
                 andThen (Cmp_method h (Upper new) (Upper new)) (\<lambda>c4.
                   if c4 = 1
                   then andThen (NewInterval (Lower old) (Some Inf_num)) (\<lambda>i. Inr (set_interval cg op i))
                   else Inr cg)))))"

text \<open>
  The body of the loop over the nodes of an SCC. The state is the graph, the heap and
  the flag \<open>changed\<close>.
\<close>

definition XXX_widen_node :: "Function \<Rightarrow> value \<Rightarrow> constraintGraph \<times> heap \<times> bool \<Rightarrow> error + (constraintGraph \<times> heap \<times> bool)" where
  "XXX_widen_node fn op = (\<lambda>(cg, h, changed).
     let old = interval_at cg op in
     andThen (eval fn cg op h) (\<lambda>(new, h1).
     andThen (widen cg op old new h1) (\<lambda>cg1.
       let res = interval_at cg1 op in
       andThen (Equal h1 old res) (\<lambda>eq.
         Inr (cg1, h1, if \<not> eq then True else changed)))))"

text \<open>
  The loop \<^verbatim>\<open>for changed { ... }\<close>. An SCC is a Go map used as a set; the list
  \<open>scc\<close> gives its elements in the order in which \<^verbatim>\<open>range\<close> yields them. The loop
  may run forever, in which case the result is \<open>None\<close>.
\<close>

partial_function (option) XXX_widening ::
  "Function \<Rightarrow> value list \<Rightarrow> constraintGraph \<times> heap \<Rightarrow> (error + (constraintGraph \<times> heap)) option" where
  "XXX_widening fn scc s =
     (case for_each (XXX_widen_node fn) scc (fst s, snd s, False) of
        Inl e \<Rightarrow> Some (Inl e)
      | Inr (cg, h, changed) \<Rightarrow>
          if changed then XXX_widening fn scc (cg, h) else Some (Inr (cg, h)))"

text \<open>
  The body of the loop over the SCCs: the check for an empty component and the
  widening loop. The source does nothing more for a component.
\<close>

definition XXX_scc :: "Function \<Rightarrow> value list \<Rightarrow> constraintGraph \<times> heap \<Rightarrow> (error + (constraintGraph \<times> heap)) option" where
  "XXX_scc fn scc s = (if length scc = 0 then Some (Inl EmptySCC) else XXX_widening fn scc s)"

fun XXX_sccs :: "Function \<Rightarrow> value list list \<Rightarrow> constraintGraph \<times> heap \<Rightarrow> (error + (constraintGraph \<times> heap)) option" where
  "XXX_sccs fn [] s = Some (Inr s)"
| "XXX_sccs fn (scc # rest) s =
     (case XXX_scc fn scc s of
        None \<Rightarrow> None
      | Some (Inl e) \<Rightarrow> Some (Inl e)
      | Some (Inr s') \<Rightarrow> XXX_sccs fn rest s')"


subsection \<open>Strongly connected components\<close>

text \<open>
  The entries of the map \<^verbatim>\<open>data\<close>; a missing entry is created as the zero struct
  before it is read.
\<close>

record vdata =
  index :: nat
  lowlink :: nat
  onstack :: bool

definition zero_vdata :: vdata where
  "zero_vdata = \<lparr>index = 0, lowlink = 0, onstack = False\<rparr>"

text \<open>
  The variables captured by the closure \<^verbatim>\<open>strongconnect\<close>: the counter
  \<^verbatim>\<open>index\<close>, the stack \<^verbatim>\<open>S\<close> (here with its top first), the map \<^verbatim>\<open>data\<close> and
  the result list \<^verbatim>\<open>sccs\<close>.
\<close>

record tarjan =
  next_index :: nat
  S :: "value list"
  data :: "value \<rightharpoonup> vdata"
  sccs_list :: "value set list"

text \<open>
  What \<^verbatim>\<open>strongconnect\<close> reads of the graph: the node set, and for every value
  the list \<^verbatim>\<open>futuresUsedBy[v]\<close> and the referrers that are values.
\<close>

record graph =
  g_nodes :: "value set"
  g_futures :: "value \<Rightarrow> value list"
  g_referrers :: "value \<Rightarrow> value list"

definition get_data :: "tarjan \<Rightarrow> value \<Rightarrow> vdata" where
  "get_data st v = (case data st v of None \<Rightarrow> zero_vdata | Some d \<Rightarrow> d)"

text \<open>\<^verbatim>\<open>wd, ok := data[w]; if !ok { wd = &struct{...}{}; data[w] = wd }\<close>\<close>

definition ensure_data :: "value \<Rightarrow> tarjan \<Rightarrow> tarjan" where
  "ensure_data w st = (case data st w of None \<Rightarrow> st\<lparr>data := (data st)(w \<mapsto> zero_vdata)\<rparr> | Some d \<Rightarrow> st)"

text \<open>
  The first lines of \<^verbatim>\<open>strongconnect\<close>, up to \<^verbatim>\<open>vd.onstack = true\<close>. The
  counter is a \<^verbatim>\<open>uint64\<close>, so \<^verbatim>\<open>index++\<close> wraps around at \<open>2 ^ 64\<close>.
\<close>

definition enter :: "value \<Rightarrow> tarjan \<Rightarrow> tarjan" where
  "enter v st =
     (let st1 = ensure_data v st
      in st1\<lparr>data := (data st1)(v \<mapsto> \<lparr>index = next_index st1, lowlink = next_index st1, onstack = True\<rparr>),
             next_index := (next_index st1 + 1) mod 2 ^ 64,
             S := v # S st1\<rparr>)"

text \<open>\<^verbatim>\<open>vd.lowlink = min(vd.lowlink, wd.lowlink)\<close>, through the two pointers.\<close>

definition update_lowlink :: "value \<Rightarrow> value \<Rightarrow> tarjan \<Rightarrow> tarjan" where
  "update_lowlink v w st =
     (let vd = get_data st v; wd = get_data st w
      in st\<lparr>data := (data st)(v \<mapsto> vd\<lparr>lowlink := min (lowlink vd) (lowlink wd)\<rparr>)\<rparr>)"

text \<open>
  The loop that pops the stack down to \<open>v\<close> and collects the component. Reading the
  top of an empty stack is an index out of range; \<^verbatim>\<open>data[w].onstack = false\<close> on a
  missing entry is a nil dereference.
\<close>

fun pop_component :: "value \<Rightarrow> value list \<Rightarrow> (value \<rightharpoonup> vdata) \<Rightarrow> value set \<Rightarrow>
    error + (value list \<times> (value \<rightharpoonup> vdata) \<times> value set)" where
  "pop_component v [] d scc = Inl IndexOutOfRange"
| "pop_component v (w # stack) d scc =
     (case d w of
        None \<Rightarrow> Inl NilDereference
      | Some wd \<Rightarrow>
          (let d' = d(w \<mapsto> wd\<lparr>onstack := False\<rparr>); scc' = insert w scc
           in if w = v then Inr (stack, d', scc') else pop_component v stack d' scc'))"

text \<open>The end of \<^verbatim>\<open>strongconnect\<close>: \<^verbatim>\<open>if vd.lowlink == vd.index { ... }\<close>.\<close>

definition finish :: "value \<Rightarrow> tarjan \<Rightarrow> error + tarjan" where
  "finish v st =
     (if lowlink (get_data st v) = index (get_data st v) then
        (case pop_component v (S st) (data st) {} of
           Inl e \<Rightarrow> Inl e
         | Inr (stack, d, scc) \<Rightarrow>
             Inr (st\<lparr>S := stack, data := d,
                     sccs_list := (if scc \<noteq> {} then sccs_list st @ [scc] else sccs_list st)\<rparr>))
      else Inr st)"

text \<open>
  \<^verbatim>\<open>strongconnect\<close> and the body of its two loops over successors. The recursion of
  the source need not end on an arbitrary state, so the functions take the depth of
  recursion that is left; \<open>None\<close> means that it did not suffice.
\<close>

fun strongconnect :: "nat \<Rightarrow> graph \<Rightarrow> value \<Rightarrow> tarjan \<Rightarrow> (error + tarjan) option"
  and visit :: "nat \<Rightarrow> graph \<Rightarrow> value \<Rightarrow> value list \<Rightarrow> tarjan \<Rightarrow> (error + tarjan) option" where
  "strongconnect 0 g v st = None"
| "strongconnect (Suc n) g v st =
     (case visit n g v (g_futures g v) (enter v st) of
        None \<Rightarrow> None
      | Some (Inl e) \<Rightarrow> Some (Inl e)
      | Some (Inr st2) \<Rightarrow>
          (case visit n g v (g_referrers g v) st2 of
             None \<Rightarrow> None
           | Some (Inl e) \<Rightarrow> Some (Inl e)
           | Some (Inr st3) \<Rightarrow> Some (finish v st3)))"
| "visit n g v [] st = Some (Inr st)"
| "visit n g v (w # ws) st =
     (if w \<notin> g_nodes g then visit n g v ws st
      else
        (let st1 = ensure_data w st in
         if index (get_data st1 w) = 0 then
           (case strongconnect n g w st1 of
              None \<Rightarrow> None
            | Some (Inl e) \<Rightarrow> Some (Inl e)
            | Some (Inr st2) \<Rightarrow> visit n g v ws (update_lowlink v w st2))
         else if onstack (get_data st1 w) then visit n g v ws (update_lowlink v w st1)
         else visit n g v ws st1))"

text \<open>The loop \<^verbatim>\<open>for v := range cg.nodes\<close>, over the nodes in the order of the iteration.\<close>

fun sccs_roots :: "nat \<Rightarrow> graph \<Rightarrow> value list \<Rightarrow> tarjan \<Rightarrow> (error + tarjan) option" where
  "sccs_roots n g [] st = Some (Inr st)"
| "sccs_roots n g (v # vs) st =
     (if data st v = None \<or> index (get_data st v) = 0 then
        (case strongconnect n g v st of
           None \<Rightarrow> None
         | Some (Inl e) \<Rightarrow> Some (Inl e)
         | Some (Inr st') \<Rightarrow> sccs_roots n g vs st')
      else sccs_roots n g vs st)"

definition initial :: tarjan where
  "initial = \<lparr>next_index = 1, S = [], data = Map.empty, sccs_list = []\<rparr>"

subsection \<open>Invariants of the component search\<close>

text \<open>
  The fields of a node's entry, zero when there is none; the successor relation the
  search follows; reachability in it.
\<close>

definition ix :: "tarjan \<Rightarrow> value \<Rightarrow> nat" where
  "ix st x = index (get_data st x)"

definition ll :: "tarjan \<Rightarrow> value \<Rightarrow> nat" where
  "ll st x = lowlink (get_data st x)"

definition os :: "tarjan \<Rightarrow> value \<Rightarrow> bool" where
  "os st x = onstack (get_data st x)"

definition succs :: "graph \<Rightarrow> value \<Rightarrow> value set" where
  "succs g v = set (g_futures g v) \<union> set (g_referrers g v)"

definition edges :: "graph \<Rightarrow> (value \<times> value) set" where
  "edges g = {(v, w). v \<in> g_nodes g \<and> w \<in> g_nodes g \<and> w \<in> succs g v}"

definition reach :: "graph \<Rightarrow> value \<Rightarrow> value \<Rightarrow> bool" where
  "reach g x y = ((x, y) \<in> (edges g)\<^sup>*)"

text \<open>
  The nodes of the components emitted so far; a component; a list of components in
  which every edge leads into the same or an earlier component; pairwise disjoint
  components.
\<close>

definition emitted :: "tarjan \<Rightarrow> value set" where
  "emitted st = \<Union> (set (sccs_list st))"

definition is_scc :: "graph \<Rightarrow> value set \<Rightarrow> bool" where
  "is_scc g C = (C \<noteq> {} \<and> C \<subseteq> g_nodes g \<and> (\<forall>x\<in>C. C = {y. reach g x y \<and> reach g y x}))"

definition topo :: "graph \<Rightarrow> value set list \<Rightarrow> bool" where
  "topo g L = (\<forall>i<length L. \<forall>x\<in>L ! i. \<forall>w. (x, w) \<in> edges g \<longrightarrow> w \<in> \<Union> (set (take (Suc i) L)))"

definition disjoint_list :: "value set list \<Rightarrow> bool" where
  "disjoint_list L = (\<forall>i<length L. \<forall>j<length L. i \<noteq> j \<longrightarrow> L ! i \<inter> L ! j = {})"

text \<open>
  The invariant of the search, for the list \<open>gs\<close> of the nodes whose call of
  \<^verbatim>\<open>strongconnect\<close> is still active, the innermost first: numbering (with the
  nodes not yet numbered, which bound the counter), stack, active nodes, reachability
  among stack nodes and the meaning of \<open>lowlink\<close>, and the emitted components.
\<close>

definition whites :: "graph \<Rightarrow> tarjan \<Rightarrow> value set" where
  "whites g st = {x \<in> g_nodes g. ix st x = 0}"

definition inv_num :: "graph \<Rightarrow> tarjan \<Rightarrow> bool" where
  "inv_num g st =
     (finite (g_nodes g) \<and> Suc (card (g_nodes g)) < 2 ^ 64 \<and>
      next_index st + card (whites g st) \<le> Suc (card (g_nodes g)) \<and>
      0 < next_index st \<and> (\<forall>x. ix st x < next_index st) \<and>
      (\<forall>x y. ix st x = ix st y \<longrightarrow> ix st x \<noteq> 0 \<longrightarrow> x = y) \<and>
      (\<forall>x. ix st x \<noteq> 0 \<longrightarrow> x \<in> g_nodes g))"

definition inv_stack :: "tarjan \<Rightarrow> bool" where
  "inv_stack st =
     (sorted_wrt (\<lambda>a b. ix st b < ix st a) (S st) \<and>
      (\<forall>x. os st x \<longleftrightarrow> x \<in> set (S st)) \<and>
      (\<forall>x. ix st x \<noteq> 0 \<longleftrightarrow> x \<in> set (S st) \<or> x \<in> emitted st) \<and>
      (\<forall>x\<in>set (S st). x \<notin> emitted st))"

definition inv_gray :: "graph \<Rightarrow> value list \<Rightarrow> tarjan \<Rightarrow> bool" where
  "inv_gray g gs st =
     (set gs \<subseteq> set (S st) \<and>
      sorted_wrt (\<lambda>a b. ix st b < ix st a) gs \<and>
      (\<forall>y\<in>set (S st). \<exists>g'\<in>set gs. ix st g' \<le> ix st y \<and> reach g y g') \<and>
      (\<forall>x w. ix st x \<noteq> 0 \<longrightarrow> x \<notin> set gs \<longrightarrow> (x, w) \<in> edges g \<longrightarrow> ix st w \<noteq> 0))"

definition inv_reach :: "graph \<Rightarrow> tarjan \<Rightarrow> bool" where
  "inv_reach g st =
     ((\<forall>x\<in>set (S st). \<forall>y\<in>set (S st). ix st x \<le> ix st y \<longrightarrow> reach g x y) \<and>
      (\<forall>x\<in>set (S st). ll st x \<le> ix st x \<and> (\<exists>u\<in>set (S st). ix st u = ll st x \<and> reach g x u)))"

definition inv_sccs :: "graph \<Rightarrow> tarjan \<Rightarrow> bool" where
  "inv_sccs g st =
     ((\<forall>C\<in>set (sccs_list st). is_scc g C) \<and> topo g (sccs_list st) \<and> disjoint_list (sccs_list st))"

definition Inv :: "graph \<Rightarrow> value list \<Rightarrow> tarjan \<Rightarrow> bool" where
  "Inv g gs st = (inv_num g st \<and> inv_stack st \<and> inv_gray g gs st \<and> inv_reach g st \<and> inv_sccs g st)"

text \<open>What a call leaves untouched.\<close>

definition frame :: "tarjan \<Rightarrow> tarjan \<Rightarrow> bool" where
  "frame st st' =
     (next_index st \<le> next_index st' \<and>
      (\<forall>x. ix st x \<noteq> 0 \<longrightarrow> ix st' x = ix st x) \<and>
      (\<forall>x. ix st x = 0 \<longrightarrow> ix st' x \<noteq> 0 \<longrightarrow> next_index st \<le> ix st' x))"

text \<open>
  The invariant of the loops over the successors of \<open>v\<close>: \<open>S0\<close> is the stack below
  \<open>v\<close>, \<open>pend\<close> the successors not yet handled.
\<close>

definition vis_inv :: "graph \<Rightarrow> value list \<Rightarrow> value \<Rightarrow> value list \<Rightarrow> value set \<Rightarrow> tarjan \<Rightarrow> bool" where
  "vis_inv g gs0 v S0 pend st =
     (Inv g (v # gs0) st \<and> v \<in> g_nodes g \<and>
      (\<exists>ns. S st = ns @ v # S0) \<and>
      (\<forall>w. (v, w) \<in> edges g \<longrightarrow> w \<in> pend \<or> ix st w \<noteq> 0) \<and>
      (\<forall>x y. x \<in> set (S st) \<longrightarrow> x \<notin> set S0 \<longrightarrow> y \<in> set S0 \<longrightarrow> (x, y) \<in> edges g \<longrightarrow>
             (x = v \<and> y \<in> pend) \<or> ll st v \<le> ix st y))"

definition keeps :: "value list \<Rightarrow> tarjan \<Rightarrow> tarjan \<Rightarrow> bool" where
  "keeps S0 st st' = (frame st st' \<and> (\<forall>x\<in>set S0. ll st' x = ll st x))"

text \<open>What a call of \<^verbatim>\<open>strongconnect\<close> on \<open>w\<close> establishes.\<close>

definition sc_post :: "graph \<Rightarrow> value list \<Rightarrow> value \<Rightarrow> tarjan \<Rightarrow> tarjan \<Rightarrow> bool" where
  "sc_post g gs w st st' =
     (Inv g gs st' \<and> keeps (S st) st st' \<and> ix st' w = next_index st \<and>
      (\<exists>ns. S st' = ns @ S st) \<and>
      (w \<in> set (S st') \<or> ll st' w = ix st' w) \<and>
      (\<forall>x y. x \<in> set (S st') \<longrightarrow> x \<notin> set (S st) \<longrightarrow> y \<in> set (S st) \<longrightarrow> (x, y) \<in> edges g \<longrightarrow>
             ll st' w \<le> ix st' y))"

text \<open>
  The statements proved of \<^verbatim>\<open>strongconnect\<close> and of its loops by induction on
  their recursion.
\<close>

definition sc_spec :: "nat \<Rightarrow> graph \<Rightarrow> value \<Rightarrow> tarjan \<Rightarrow> bool" where
  "sc_spec n g w st =
     (\<forall>gs. Inv g gs st \<longrightarrow> w \<in> g_nodes g \<longrightarrow> ix st w = 0 \<longrightarrow> (gs = [] \<or> (hd gs, w) \<in> edges g) \<longrightarrow>
        card (whites g st) \<le> n \<longrightarrow>
        (\<exists>st'. strongconnect n g w st = Some (Inr st') \<and> sc_post g gs w st st'))"

definition visit_spec :: "nat \<Rightarrow> graph \<Rightarrow> value \<Rightarrow> value list \<Rightarrow> tarjan \<Rightarrow> bool" where
  "visit_spec n g v ws st =
     (\<forall>gs0 S0 pend. vis_inv g gs0 v S0 (set ws \<union> pend) st \<longrightarrow> set ws \<subseteq> succs g v \<longrightarrow>
        card (whites g st) \<le> n \<longrightarrow>
        (\<exists>st'. visit n g v ws st = Some (Inr st') \<and> vis_inv g gs0 v S0 pend st' \<and> keeps S0 st st'))"

text \<open>
  \<^verbatim>\<open>futuresUsedBy\<close>: for every value the sigma nodes whose symbolic intersection
  refers to it, in the order in which the loop over the map \<^verbatim>\<open>cg.intersections\<close>
  meets them; \<open>sigmas\<close> is that order.
\<close>

definition futuresUsedBy :: "constraintGraph \<Rightarrow> value list \<Rightarrow> value \<Rightarrow> value list" where
  "futuresUsedBy cg sigmas v =
     filter (\<lambda>sigma. case intersections cg sigma of
                       Some (SymbolicIntersection op u) \<Rightarrow> u = v
                     | _ \<Rightarrow> False) sigmas"

definition graph_of :: "Function \<Rightarrow> constraintGraph \<Rightarrow> value list \<Rightarrow> graph" where
  "graph_of fn cg sigmas =
     \<lparr>g_nodes = nodes cg,
      g_futures = futuresUsedBy cg sigmas,
      g_referrers = (\<lambda>v. filter (\<lambda>w. is_Value (instr_of fn w)) (Referrers fn v))\<rparr>"

text \<open>
  The method \<^verbatim>\<open>sccs\<close>. \<open>order\<close> is the order in which the loop over the map
  \<^verbatim>\<open>cg.nodes\<close> meets the nodes; the last loop of the source reverses the list.
\<close>

definition sccs :: "Function \<Rightarrow> constraintGraph \<Rightarrow> value list \<Rightarrow> value list \<Rightarrow> nat \<Rightarrow>
    (error + value set list) option" where
  "sccs fn cg sigmas order depth =
     (case sccs_roots depth (graph_of fn cg sigmas) order initial of
        None \<Rightarrow> None
      | Some (Inl e) \<Rightarrow> Some (Inl e)
      | Some (Inr st) \<Rightarrow> Some (Inr (rev (sccs_list st))))"

text \<open>
  The function \<^verbatim>\<open>XXX\<close>: the graph is built, its components are computed, and the
  loop over the components runs. \<open>scc_order\<close> gives the order in which the loop over
  a component (a map) meets its nodes.
\<close>

definition XXX :: "Function \<Rightarrow> value list \<Rightarrow> value list \<Rightarrow> (value set \<Rightarrow> value list) \<Rightarrow> nat \<Rightarrow> heap \<Rightarrow>
    (error + (constraintGraph \<times> heap)) option" where
  "XXX fn sigmas order scc_order depth h =
     (case XXX_build fn h of
        Inl e \<Rightarrow> Some (Inl e)
      | Inr (cg, h1) \<Rightarrow>
          (case sccs fn cg sigmas order depth of
             None \<Rightarrow> None
           | Some (Inl e) \<Rightarrow> Some (Inl e)
           | Some (Inr components) \<Rightarrow> XXX_sccs fn (map scc_order components) (cg, h1)))"

text \<open>
  The successor relation of the specification: the referrers of a value that are in
  the graph, and an edge from \<open>v\<close> to every sigma node whose symbolic intersection
  refers to \<open>v\<close>.
\<close>

definition successor_relation :: "Function \<Rightarrow> constraintGraph \<Rightarrow> (value \<times> value) set" where
  "successor_relation fn cg =
     {(v, w). v \<in> nodes cg \<and> w \<in> nodes cg \<and>
        (w \<in> set (Referrers fn v) \<or> (\<exists>op. intersections cg w = Some (SymbolicIntersection op v)))}"

text \<open>A strongly connected component of a relation on a set of nodes.\<close>

definition strongly_connected_component :: "(value \<times> value) set \<Rightarrow> value set \<Rightarrow> value set \<Rightarrow> bool" where
  "strongly_connected_component E V C =
     (C \<noteq> {} \<and> C \<subseteq> V \<and> (\<forall>x\<in>C. C = {y. (x, y) \<in> E\<^sup>* \<and> (y, x) \<in> E\<^sup>*}))"

text \<open>
  Components in topological order: an edge never leads from a component to one that
  comes earlier in the list.
\<close>

definition topological :: "(value \<times> value) set \<Rightarrow> value set list \<Rightarrow> bool" where
  "topological E L =
     (\<forall>i<length L. \<forall>j<length L. \<forall>x\<in>L ! i. \<forall>y\<in>L ! j. (x, y) \<in> E \<longrightarrow> i \<le> j)"

text \<open>
  \<^verbatim>\<open>x := 0; for { x = x + 1 }\<close> in SSI form: the constants 0 and 1 (values 0 and 1),
  the phi node of \<open>x\<close> (value 2) and the addition (value 3), which refer to each other.
\<close>

definition example_loop_fn :: Function where
  "example_loop_fn =
     \<lparr>Blocks = [0, 1],
      block_of = (\<lambda>b. if b = 0 then \<lparr>Instrs = [0, 1], Succs = [1], Control = None\<rparr>
                      else if b = 1 then \<lparr>Instrs = [2, 3], Succs = [1], Control = None\<rparr>
                      else \<lparr>Instrs = [], Succs = [], Control = None\<rparr>),
      instr_of = (\<lambda>v. if v = 0 then Const (IntVal 0) else if v = 1 then Const (IntVal 1)
                      else if v = 2 then Phi [0, 3] else if v = 3 then BinOp ADD 2 1 else OtherInstr),
      is_integer = (\<lambda>v. True),
      Referrers = (\<lambda>v. if v = 0 then [2] else if v = 1 then [3] else if v = 2 then [3]
                       else if v = 3 then [2] else [])\<rparr>"

definition example_loop_graph :: constraintGraph where
  "example_loop_graph = \<lparr>intersections = Map.empty, nodes = {0, 1, 2, 3}, intervals = Map.empty\<rparr>"

subsection \<open>Reading intervals\<close>

text \<open>
  The extended integer an endpoint stands for in a heap, and the pair of bounds of a
  defined interval.
\<close>

datatype bound = MinusInf | Fin int | PlusInf

fun bound_of :: "heap \<Rightarrow> Numeric \<Rightarrow> bound" where
  "bound_of h (Infinity negative) = (if negative then MinusInf else PlusInf)"
| "bound_of h (Number p) = Fin (deref h p)"

definition bounds :: "heap \<Rightarrow> Interval \<Rightarrow> (bound \<times> bound) option" where
  "bounds h i =
     (case (Lower i, Upper i) of
        (Some l, Some u) \<Rightarrow> Some (bound_of h l, bound_of h u)
      | _ \<Rightarrow> None)"

text \<open>
  The table of the specification for a comparison of the variable with the constant
  \<open>k\<close>: \<open><k\<close> gives \<open>[-\<infinity>, k-1]\<close>, \<open>>k\<close> gives \<open>[k+1, +\<infinity>]\<close>, \<open>\<le>k\<close> gives
  \<open>[-\<infinity>, k]\<close>, \<open>\<ge>k\<close> gives \<open>[k, +\<infinity>]\<close>, \<open>=k\<close> gives \<open>[k, k]\<close>, \<open>\<noteq>k\<close> gives
  \<open>[-\<infinity>, +\<infinity>]\<close>.
\<close>

fun constant_table :: "token \<Rightarrow> int \<Rightarrow> (bound \<times> bound) option" where
  "constant_table LSS k = Some (MinusInf, Fin (k - 1))"
| "constant_table GTR k = Some (Fin (k + 1), PlusInf)"
| "constant_table LEQ k = Some (MinusInf, Fin k)"
| "constant_table GEQ k = Some (Fin k, PlusInf)"
| "constant_table EQL k = Some (Fin k, Fin k)"
| "constant_table NEQ k = Some (MinusInf, PlusInf)"
| "constant_table _ k = None"

text \<open>
  Modelled from the spec: the comparison read from the other side (\<open>k < x\<close> is
  \<open>x > k\<close>, \<open>k \<le> x\<close> is \<open>x \<ge> k\<close>, equality and inequality stay), and the
  comparison that holds when the given one fails (\<open><\<close> and \<open>\<ge>\<close>, \<open>>\<close> and \<open>\<le>\<close>,
  \<open>=\<close> and \<open>\<noteq>\<close>).
\<close>

fun flipped :: "token \<Rightarrow> token" where
  "flipped LSS = GTR"
| "flipped GTR = LSS"
| "flipped LEQ = GEQ"
| "flipped GEQ = LEQ"
| "flipped t = t"

fun negated :: "token \<Rightarrow> token" where
  "negated LSS = GEQ"
| "negated GEQ = LSS"
| "negated GTR = LEQ"
| "negated LEQ = GTR"
| "negated EQL = NEQ"
| "negated NEQ = EQL"
| "negated t = t"

text \<open>
  Modelled from the spec: the operator the derivation uses, flipped first when the
  constant is on the left, then negated when the sigma node is in the else branch.
\<close>

definition branch_op :: "bool \<Rightarrow> bool \<Rightarrow> token \<Rightarrow> token" where
  "branch_op const_left else_branch op =
     (let op1 = (if const_left then flipped op else op)
      in if else_branch then negated op1 else op1)"

text \<open>
  Every pointer of an interval is allocated; a later heap agrees with an earlier one
  on the allocated addresses.
\<close>

definition allocated :: "heap \<Rightarrow> Interval \<Rightarrow> bool" where
  "allocated h i = ((\<forall>p. Lower i = Some (Number p) \<longrightarrow> p < brk h) \<and> (\<forall>p. Upper i = Some (Number p) \<longrightarrow> p < brk h))"

definition heap_extends :: "heap \<Rightarrow> heap \<Rightarrow> bool" where
  "heap_extends h h' = (brk h \<le> brk h' \<and> (\<forall>p < brk h. cells h' p = cells h p))"

definition has_constant_intersection :: "value \<Rightarrow> (bound \<times> bound) option \<Rightarrow> constraintGraph \<times> heap \<Rightarrow> bool" where
  "has_constant_intersection v tb = (\<lambda>(cg, h).
     \<exists>I. intersections cg v = Some (BasicIntersection I) \<and> bounds h I = tb \<and> allocated h I)"

text \<open>
  The order of \<^verbatim>\<open>Cmp\<close> as a key, and an interval seen as a pair of keys. The
  operations on these views mirror \<open>Union_ival\<close> and \<open>Intersect\<close>.
\<close>

type_synonym 'a iview = "('a \<times> 'a) option"

definition emp :: "('a::linorder) iview \<Rightarrow> bool" where
  "emp a = (case a of None \<Rightarrow> False | Some (l, u) \<Rightarrow> u < l)"

definition uview :: "('a::linorder) iview \<Rightarrow> 'a iview \<Rightarrow> 'a iview" where
  "uview a b = (if emp a then b else if emp b then a else
      case a of None \<Rightarrow> b | Some (al, au) \<Rightarrow>
       (case b of None \<Rightarrow> a | Some (bl, bu) \<Rightarrow> Some (min al bl, max au bu)))"

definition iview :: "('a::linorder) iview \<Rightarrow> 'a iview \<Rightarrow> 'a iview \<Rightarrow> 'a iview" where
  "iview e a b = (if emp a \<or> emp b then e else
      case a of None \<Rightarrow> b | Some (al, au) \<Rightarrow>
       (case b of None \<Rightarrow> a | Some (bl, bu) \<Rightarrow> Some (max al bl, min au bu)))"

fun nkey :: "heap \<Rightarrow> Numeric \<Rightarrow> int \<times> int" where
  "nkey h (Infinity negative) = (if negative then (- 1, 0) else (1, 0))"
| "nkey h (Number p) = (0, cells h p)"

definition view :: "heap \<Rightarrow> Interval \<Rightarrow> (int \<times> int) iview" where
  "view h x =
     (case Lower x of None \<Rightarrow> None
      | Some l \<Rightarrow> (case Upper x of None \<Rightarrow> None | Some u \<Rightarrow> Some (nkey h l, nkey h u)))"

definition empty_view :: "(int \<times> int) iview" where
  "empty_view = Some ((1, 0), (- 1, 0))"

definition iv :: "Numeric \<Rightarrow> Numeric \<Rightarrow> Interval" where
  "iv l u = \<lparr>Lower = Some l, Upper = Some u\<rparr>"

subsection \<open>An example function\<close>

text \<open>
  \<^verbatim>\<open>a := 5 + 7; if a < 100 { ... } else { ... }\<close> in SSI form: block 0 computes
  \<open>a\<close> (value 2) and the condition (value 4) and branches; blocks 1 and 2 start with
  the sigma nodes 6 and 7 of \<open>a\<close>.
\<close>

definition example_instrs :: "instr list" where
  "example_instrs =
     [Const (IntVal 5), Const (IntVal 7), BinOp ADD 0 1, Const (IntVal 100), BinOp LSS 2 3, If 4,
      Sigma 2 0, Sigma 2 0]"

definition example_blocks :: "BasicBlock list" where
  "example_blocks =
     [\<lparr>Instrs = [0, 1, 2, 3, 4, 5], Succs = [1, 2], Control = Some 5\<rparr>,
      \<lparr>Instrs = [6], Succs = [], Control = None\<rparr>,
      \<lparr>Instrs = [7], Succs = [], Control = None\<rparr>]"

definition example_fn :: Function where
  "example_fn =
     \<lparr>Blocks = [0, 1, 2],
      block_of = (\<lambda>b. if b < 3 then example_blocks ! b else \<lparr>Instrs = [], Succs = [], Control = None\<rparr>),
      instr_of = (\<lambda>v. if v < 8 then example_instrs ! v else OtherInstr),
      is_integer = (\<lambda>v. v \<noteq> 4 \<and> v \<noteq> 5),
      Referrers = (\<lambda>v. if v = 0 \<or> v = 1 then [2] else if v = 2 then [4, 6, 7] else if v = 3 then [4]
                        else if v = 4 then [5] else [])\<rparr>"


text \<open>
  The same function with the condition written \<^verbatim>\<open>100 < a\<close>: the constant is the
  left operand of the comparison.
\<close>

definition example_left_fn :: Function where
  "example_left_fn = example_fn\<lparr>instr_of := (instr_of example_fn)(4 := BinOp LSS 3 2)\<rparr>"

definition example_intervals :: "value \<rightharpoonup> Interval" where
  "example_intervals = [2 \<mapsto> iv (Number 0) (Number 0), 3 \<mapsto> iv (Number 1) (Number 1)]"

text \<open>
  A result of the loop over the components that, unless it is a panic, has the
  intersections and the nodes of the graph it started from.
\<close>

definition same_graph :: "constraintGraph \<times> heap \<Rightarrow> (error + constraintGraph \<times> heap) \<Rightarrow> bool" where
  "same_graph s r =
     (case r of
        Inl e \<Rightarrow> True
      | Inr s' \<Rightarrow> intersections (fst s') = intersections (fst s) \<and> nodes (fst s') = nodes (fst s))"

text \<open>
  The same function with \<^verbatim>\<open>if a < n\<close> for a second variable \<open>n\<close> (value 3), and the
  constraint graph built for it: both sigma nodes carry symbolic intersections.
\<close>

definition example_sym_fn :: Function where
  "example_sym_fn =
     example_fn\<lparr>instr_of := (instr_of example_fn)(3 := BinOp ADD 1 0),
                Referrers := (Referrers example_fn)(0 := [2, 3], 1 := [2, 3])\<rparr>"

definition example_sym_graph :: constraintGraph where
  "example_sym_graph =
     \<lparr>intersections = [6 \<mapsto> SymbolicIntersection LSS 3, 7 \<mapsto> SymbolicIntersection GEQ 3],
      nodes = {0, 1, 2, 3, 6, 7}, intervals = Map.empty\<rparr>"

section \<open>Properties\<close>

subsection \<open>Tokens\<close>

text \<open>
  C10. On the six comparison tokens \<open><\<close>, \<open>>\<close>, \<open><=\<close>, \<open>>=\<close>, \<open>==\<close>, \<open>!=\<close>,
  \<open>flipToken\<close> and \<open>negateToken\<close> are involutions: applying either twice gives the
  token back, and each maps the six-token set onto itself.
\<close>

theorem token_involutions:
  "(\<forall>t \<in> comparisons.
      andThen (flipToken t) flipToken = Inr t \<and>
      andThen (negateToken t) negateToken = Inr t) \<and>
   Inr ` comparisons = flipToken ` comparisons \<and>
   Inr ` comparisons = negateToken ` comparisons"
  by (simp add: comparisons_def andThen_def insert_commute)

theorem token_involutions_witness:
  "LSS \<in> comparisons \<and>
   andThen (flipToken LSS) flipToken = Inr LSS \<and>
   andThen (negateToken LSS) negateToken = Inr LSS"
  using token_involutions by (simp add: comparisons_def)

subsection \<open>Addition of extended integers\<close>

text \<open>
  C4 (as the code has it). \<open>Add\<close> panics whenever its first operand is \<open>-\<infinity>\<close>,
  whatever the second operand is. With first operand \<open>+\<infinity>\<close> and a second operand
  other than \<open>-\<infinity>\<close> it returns \<open>+\<infinity>\<close>; with a finite first operand and an
  infinite second operand it returns the second operand; two finite operands give a
  finite result. The heap is changed only in the last case.
\<close>

theorem Add_infinite_operands:
  "Add NegInf y h = Inl NegInfAdd \<and>
   Add Inf_num Inf_num h = Inr (Inf_num, h) \<and>
   Add Inf_num (Number q) h = Inr (Inf_num, h) \<and>
   Add (Number p) NegInf h = Inr (NegInf, h) \<and>
   Add (Number p) Inf_num h = Inr (Inf_num, h) \<and>
   (\<exists>r h'. Add (Number p) (Number q) h = Inr (Number r, h'))"
  by (simp add: NegInf_def Inf_num_def NewInt_def big_Add_def)

text \<open>
  C4 as stated fails: \<open>-\<infinity> + 5\<close> panics instead of returning \<open>-\<infinity>\<close>.
\<close>

theorem Add_neginf_finite_panics:
  "Add NegInf (Number 0) (heap_of [5]) = Inl NegInfAdd"
  by (simp add: NegInf_def)

text \<open>
  C5 (what the code does instead). For two finite operands whose second pointer is
  allocated, \<open>Add\<close> returns the first operand's own pointer, and the integer stored
  there afterwards is the second operand's value, not the sum.
\<close>

theorem Add_finite_stores_second:
  "q < brk h \<Longrightarrow>
   \<exists>h'. Add (Number p) (Number q) h = Inr (Number p, h') \<and>
        finite_value h' (Number p) = Some (deref h q)"
  by (simp add: NewInt_def big_Add_def deref_def)

theorem Add_finite_stores_second_witness:
  "1 < brk (heap_of [2, 3]) \<and>
   (\<exists>h'. Add (Number 0) (Number 1) (heap_of [2, 3]) = Inr (Number 0, h') \<and>
         finite_value h' (Number 0) = Some 3)"
  using Add_finite_stores_second [of 1 "heap_of [2, 3]" 0]
  by (simp add: heap_of_def deref_def)

subsection \<open>Intersections from comparisons with a constant\<close>

lemma heap_extends_refl [simp]: "heap_extends h h"
  by (simp add: heap_extends_def)

lemma heap_extends_trans: "heap_extends h1 h2 \<Longrightarrow> heap_extends h2 h3 \<Longrightarrow> heap_extends h1 h3"
  by (auto simp: heap_extends_def)

lemma bounds_extends: "heap_extends h h' \<Longrightarrow> allocated h i \<Longrightarrow> bounds h' i = bounds h i \<and> allocated h' i"
proof -
  assume e: "heap_extends h h'" and a: "allocated h i"
  have n: "bound_of h' x = bound_of h x" if "\<forall>p. x = Number p \<longrightarrow> p < brk h" for x
    using that e by (cases x) (auto simp: deref_def heap_extends_def)
  have "bounds h' i = bounds h i"
    using a n by (cases "Lower i"; cases "Upper i") (auto simp: bounds_def allocated_def)
  moreover have "allocated h' i"
    using a e by (fastforce simp: allocated_def heap_extends_def)
  ultimately show ?thesis by simp
qed

lemma constantToBigInt_IntVal:
  "constantToBigInt (IntVal k) h = Inr (brk h, h\<lparr>cells := (cells h)(brk h := k), brk := Suc (brk h)\<rparr>)"
  by (simp add: constantToBigInt_def NewInt_def)

lemma constant_intersection_table:
  assumes "op \<in> comparisons" "val < brk h" "deref h val = k"
  shows "\<exists>I h'. constant_intersection op val h = Inr (BasicIntersection I, h') \<and>
           bounds h' I = constant_table op k \<and> allocated h' I \<and> brk h' = brk h \<and> (\<forall>p. p \<noteq> val \<longrightarrow> cells h' p = cells h p)"
  using assms
  by (cases op)
     (auto simp: comparisons_def constant_intersection_def big_Sub_def big_Add_def NewInterval_def
        andThen_def bounds_def allocated_def deref_def one_def NegInf_def Inf_num_def infinity_def)

lemma flipToken_flipped: "op \<in> comparisons \<Longrightarrow> flipToken op = Inr (flipped op)"
  by (cases op) (simp_all add: comparisons_def)

lemma negateToken_negated: "op \<in> comparisons \<Longrightarrow> negateToken op = Inr (negated op)"
  by (cases op) (simp_all add: comparisons_def)

lemma flipped_comparison: "op \<in> comparisons \<Longrightarrow> flipped op \<in> comparisons"
  by (cases op) (simp_all add: comparisons_def)

lemma negated_comparison: "op \<in> comparisons \<Longrightarrow> negated op \<in> comparisons"
  by (cases op) (simp_all add: comparisons_def)

lemma branch_op_comparison: "op \<in> comparisons \<Longrightarrow> branch_op l e op \<in> comparisons"
  by (simp add: branch_op_def Let_def flipped_comparison negated_comparison)

lemma XXX_sigma_constant:
  assumes ctrl: "Control (block_of fn From) = Some ctrl" "instr_of fn ctrl = If Cond"
      "instr_of fn Cond = BinOp op cX cY"
    and op: "op \<in> comparisons"
    and succs: "Succs (block_of fn From) = s0 # s1 # rest"
    and sides: "(as_Const (instr_of fn cX) = None \<and> cX = X \<and> instr_of fn cY = Const (IntVal k) \<and> \<not> left) \<or>
                (as_Const (instr_of fn cY) = None \<and> cY = X \<and> instr_of fn cX = Const (IntVal k) \<and> left)"
  shows "\<exists>I h'. XXX_sigma fn b X From h = Inr (Some (BasicIntersection I), h') \<and>
           bounds h' I = constant_table (branch_op left (s1 = b) op) k \<and> allocated h' I \<and> heap_extends h h'"
proof -
  let ?op' = "branch_op left (s1 = b) op"
  have c: "?op' \<in> comparisons"
    using branch_op_comparison [OF op] .
  have fl: "flipToken op = Inr (flipped op)"
    using flipToken_flipped [OF op] .
  have ng: "negateToken op = Inr (negated op)" "negateToken (flipped op) = Inr (negated (flipped op))"
    using negateToken_negated [OF op] negateToken_negated [OF flipped_comparison [OF op]] by simp_all
  let ?h1 = "h\<lparr>cells := (cells h)(brk h := k), brk := Suc (brk h)\<rparr>"
  obtain I h' where I: "constant_intersection ?op' (brk h) ?h1 = Inr (BasicIntersection I, h')"
     "bounds h' I = constant_table ?op' k" "allocated h' I" "brk h' = brk ?h1"
     "\<forall>p. p \<noteq> brk h \<longrightarrow> cells h' p = cells ?h1 p"
    using constant_intersection_table [OF c, of "brk h" ?h1 k] by (auto simp: deref_def)
  have ext: "heap_extends h h'"
    using I(4,5) by (auto simp: heap_extends_def)
  from sides show ?thesis
  proof
    assume a: "as_Const (instr_of fn cX) = None \<and> cX = X \<and> instr_of fn cY = Const (IntVal k) \<and> \<not> left"
    then have "XXX_sigma fn b X From h = Inr (Some (BasicIntersection I), h')"
      using ctrl succs ng I(1)
      by (auto simp: XXX_sigma_def andThen_def in_else_branch_def branch_op_def Let_def
            constantToBigInt_IntVal split: if_splits sum.splits)
    then show ?thesis using I ext by blast
  next
    assume a: "as_Const (instr_of fn cY) = None \<and> cY = X \<and> instr_of fn cX = Const (IntVal k) \<and> left"
    then have "XXX_sigma fn b X From h = Inr (Some (BasicIntersection I), h')"
      using ctrl succs fl ng I(1)
      by (auto simp: XXX_sigma_def andThen_def in_else_branch_def branch_op_def Let_def
            constantToBigInt_IntVal split: if_splits sum.splits)
    then show ?thesis using I ext by blast
  qed
qed

lemma for_each_append:
  "for_each body (xs @ ys) s = andThen (for_each body xs s) (for_each body ys)"
  by (induction xs arbitrary: s) (auto simp: andThen_def split: sum.splits)

lemma for_each_preserves:
  assumes "for_each body xs s = Inr s'" and "P s"
    and "\<And>x t t'. x \<in> set xs \<Longrightarrow> P t \<Longrightarrow> body x t = Inr t' \<Longrightarrow> P t'"
  shows "P s'"
  using assms
proof (induction xs arbitrary: s)
  case Nil
  then show ?case by simp
next
  case (Cons x xs)
  then obtain t where t: "body x s = Inr t" "for_each body xs t = Inr s'"
    by (auto simp: andThen_def split: sum.splits)
  have "P t" using Cons.prems(2) Cons.prems(3) [of x s t] t(1) by simp
  then show ?case using Cons.IH [OF t(2)] Cons.prems(3) by auto
qed

lemma for_each_establishes:
  assumes "for_each body xs s = Inr s'" and "x \<in> set xs" and "distinct xs"
    and est: "\<And>t t'. body x t = Inr t' \<Longrightarrow> P t'"
    and pres: "\<And>y t t'. y \<in> set xs \<Longrightarrow> y \<noteq> x \<Longrightarrow> P t \<Longrightarrow> body y t = Inr t' \<Longrightarrow> P t'"
  shows "P s'"
proof -
  obtain ys zs where xs: "xs = ys @ x # zs"
    using assms(2) by (auto simp: in_set_conv_decomp)
  have nz: "x \<notin> set zs" using assms(3) xs by simp
  obtain t where t: "for_each body ys s = Inr t" "for_each body (x # zs) t = Inr s'"
    using assms(1) unfolding xs for_each_append by (auto simp: andThen_def split: sum.splits)
  obtain u where u: "body x t = Inr u" "for_each body zs u = Inr s'"
    using t(2) by (auto simp: andThen_def split: sum.splits)
  have "P u" using est u(1) .
  then show ?thesis
    using for_each_preserves [OF u(2), of P] pres nz xs by auto
qed

lemma constant_intersection_extends:
  "constant_intersection op val h = Inr (r, h') \<Longrightarrow> brk h' = brk h \<and> (\<forall>p. p \<noteq> val \<longrightarrow> cells h' p = cells h p)"
  by (cases op)
     (auto simp: constant_intersection_def big_Sub_def big_Add_def NewInterval_def andThen_def)

lemma constantToBigInt_extends:
  "constantToBigInt k h = Inr (val, h1) \<Longrightarrow> val = brk h \<and> brk h1 = Suc (brk h) \<and> (\<forall>p < brk h. cells h1 p = cells h p)"
  by (cases k) (auto simp: constantToBigInt_def NewInt_def)

lemma constant_steps_extend:
  assumes "constantToBigInt k h = Inr (val, h1)" "constant_intersection op val h1 = Inr (r, h2)"
  shows "heap_extends h h2"
  using constantToBigInt_extends [OF assms(1)] constant_intersection_extends [OF assms(2)]
  by (auto simp: heap_extends_def)

lemma XXX_sigma_extends:
  assumes "XXX_sigma fn b X From h = Inr (r, h')"
  shows "heap_extends h h'"
  using assms constant_steps_extend
  unfolding XXX_sigma_def
  by (auto simp: andThen_def Let_def split: option.splits instr.splits if_splits sum.splits prod.splits)

lemma XXX_instr_other:
  assumes "XXX_instr fn b w (cg, h) = Inr (cg', h')" and "w \<noteq> v"
  shows "intersections cg' v = intersections cg v \<and> heap_extends h h'"
  using assms XXX_sigma_extends
  unfolding XXX_instr_def
  by (auto simp: andThen_def Let_def split: if_splits instr.splits sum.splits option.splits prod.splits)

lemma XXX_instr_preserves:
  assumes "XXX_instr fn b w t = Inr t'" and "w \<noteq> v" and "has_constant_intersection v tb t"
  shows "has_constant_intersection v tb t'"
proof -
  obtain cg h cg' h' where t: "t = (cg, h)" "t' = (cg', h')" by (cases t; cases t') auto
  from XXX_instr_other [OF assms(1) [unfolded t] assms(2)]
  have "intersections cg' v = intersections cg v" "heap_extends h h'" by auto
  then show ?thesis
    using assms(3) bounds_extends unfolding t has_constant_intersection_def by fastforce
qed

lemma XXX_block_preserves:
  assumes "XXX_block fn b t = Inr t'" and "v \<notin> set (Instrs (block_of fn b))"
    and "has_constant_intersection v tb t"
  shows "has_constant_intersection v tb t'"
proof (rule for_each_preserves [where P = "has_constant_intersection v tb"])
  show "for_each (XXX_instr fn b) (Instrs (block_of fn b)) t = Inr t'"
    using assms(1) by (simp add: XXX_block_def)
  show "has_constant_intersection v tb t" by fact
  fix w s s'
  assume "w \<in> set (Instrs (block_of fn b))" "has_constant_intersection v tb s"
    "XXX_instr fn b w s = Inr s'"
  then show "has_constant_intersection v tb s'"
    using XXX_instr_preserves [of fn b w s s' v tb] assms(2) by auto
qed

lemma XXX_instr_establishes:
  assumes run: "XXX_instr fn b v t = Inr t'"
    and sigma: "instr_of fn v = Sigma X From" and int: "is_integer fn v"
    and ctrl: "Control (block_of fn From) = Some ctrl" "instr_of fn ctrl = If Cond"
      "instr_of fn Cond = BinOp op cX cY"
    and op: "op \<in> comparisons"
    and succs: "Succs (block_of fn From) = s0 # s1 # rest"
    and sides: "(as_Const (instr_of fn cX) = None \<and> cX = X \<and> instr_of fn cY = Const (IntVal k) \<and> \<not> left) \<or>
                (as_Const (instr_of fn cY) = None \<and> cY = X \<and> instr_of fn cX = Const (IntVal k) \<and> left)"
  shows "has_constant_intersection v (constant_table (branch_op left (s1 = b) op) k) t'"
proof -
  obtain cg h where t: "t = (cg, h)" by (cases t)
  obtain I h' where I: "XXX_sigma fn b X From h = Inr (Some (BasicIntersection I), h')"
      "bounds h' I = constant_table (branch_op left (s1 = b) op) k" "allocated h' I"
    using XXX_sigma_constant [OF ctrl op succs sides, of b h] by blast
  have "t' = (cg\<lparr>nodes := insert v (nodes cg),
                  intersections := (intersections cg)(v \<mapsto> BasicIntersection I)\<rparr>, h')"
    using run sigma int I(1) unfolding t XXX_instr_def
    by (simp add: andThen_def)
  then show ?thesis
    using I(2,3) by (simp add: has_constant_intersection_def)
qed

text \<open>
  C6. Let \<open>v\<close> be an integer-typed sigma node with operand \<open>X\<close>, met once in the
  function, in block \<open>b\<close>, and let the block \<open>v\<close> comes from end in an \<open>If\<close> whose
  condition compares \<open>X\<close> with the constant \<open>k\<close> (on either side). If the builder
  finishes, the intersection of \<open>v\<close> is a basic one whose interval is the entry of the
  table (\<open><k\<close> gives \<open>[-\<infinity>, k-1]\<close>, \<open>>k\<close> gives \<open>[k+1, +\<infinity>]\<close>, \<open>\<le>k\<close> gives
  \<open>[-\<infinity>, k]\<close>, \<open>\<ge>k\<close> gives \<open>[k, +\<infinity>]\<close>, \<open>=k\<close> gives \<open>[k, k]\<close>, \<open>\<noteq>k\<close> gives
  \<open>[-\<infinity>, +\<infinity>]\<close>) for the operator of the condition, flipped first when the constant
  is on the left (\<open><\<close> with \<open>>\<close>, \<open>\<le>\<close> with \<open>\<ge>\<close>) and then negated when \<open>b\<close> is the
  second successor of the branching block (\<open><\<close> with \<open>\<ge>\<close>, \<open>>\<close> with \<open>\<le>\<close>, \<open>=\<close>
  with \<open>\<noteq>\<close>).
\<close>

theorem builder_constant_intersection:
  assumes build: "XXX_build fn h = Inr (cg, h')"
    and once: "distinct (concat (map (\<lambda>b. Instrs (block_of fn b)) (Blocks fn)))"
    and b: "b \<in> set (Blocks fn)" and v: "v \<in> set (Instrs (block_of fn b))"
    and sigma: "instr_of fn v = Sigma X From" and int: "is_integer fn v"
    and ctrl: "Control (block_of fn From) = Some ctrl" "instr_of fn ctrl = If Cond"
      "instr_of fn Cond = BinOp op cX cY"
    and op: "op \<in> comparisons"
    and succs: "Succs (block_of fn From) = s0 # s1 # rest"
    and sides: "(as_Const (instr_of fn cX) = None \<and> cX = X \<and> instr_of fn cY = Const (IntVal k) \<and> \<not> left) \<or>
                (as_Const (instr_of fn cY) = None \<and> cY = X \<and> instr_of fn cX = Const (IntVal k) \<and> left)"
  shows "\<exists>I. intersections cg v = Some (BasicIntersection I) \<and>
           bounds h' I = constant_table (branch_op left (s1 = b) op) k"
proof -
  let ?P = "has_constant_intersection v (constant_table (branch_op left (s1 = b) op) k)"
  obtain bs1 bs2 where bs: "Blocks fn = bs1 @ b # bs2"
    using b by (auto simp: in_set_conv_decomp)
  have d: "distinct (Instrs (block_of fn b))"
    and others: "\<And>b'. b' \<in> set bs1 \<union> set bs2 \<Longrightarrow> v \<notin> set (Instrs (block_of fn b'))"
    using once v unfolding bs by auto
  obtain t1 where t1: "for_each (XXX_block fn) bs1 (empty_graph, h) = Inr t1"
      "for_each (XXX_block fn) (b # bs2) t1 = Inr (cg, h')"
    using build unfolding XXX_build_def bs for_each_append
    by (auto simp: andThen_def split: sum.splits)
  obtain t2 where t2: "XXX_block fn b t1 = Inr t2" "for_each (XXX_block fn) bs2 t2 = Inr (cg, h')"
    using t1(2) by (auto simp: andThen_def split: sum.splits)
  have "?P t2"
  proof (rule for_each_establishes [where P = ?P and x = v])
    show "for_each (XXX_instr fn b) (Instrs (block_of fn b)) t1 = Inr t2"
      using t2(1) by (simp add: XXX_block_def)
    show "v \<in> set (Instrs (block_of fn b))" by fact
    show "distinct (Instrs (block_of fn b))" by fact
    show "?P s'" if "XXX_instr fn b v s = Inr s'" for s s'
      using XXX_instr_establishes [OF that sigma int ctrl op succs sides] .
    show "?P s'" if "w \<noteq> v" "?P s" "XXX_instr fn b w s = Inr s'" for w s s'
      using XXX_instr_preserves [OF that(3,1,2)] .
  qed
  have "?P (cg, h')"
  proof (rule for_each_preserves [where P = ?P, OF t2(2)])
    show "?P t2" by fact
    show "?P s'" if "b' \<in> set bs2" "?P s" "XXX_block fn b' s = Inr s'" for b' s s'
      using XXX_block_preserves [OF that(3) _ that(2)] others that(1) by simp
  qed
  then show ?thesis
    by (auto simp: has_constant_intersection_def)
qed

text \<open>
  The builder on \<^verbatim>\<open>if 100 < a\<close>: in the else branch \<open>a\<close> is at most 100, and in
  the then branch at least 101.
\<close>

lemma example_build:
  "\<exists>cg h'. XXX_build example_left_fn (heap_of []) = Inr (cg, h') \<and>
     (\<exists>I. intersections cg 7 = Some (BasicIntersection I) \<and> bounds h' I = Some (MinusInf, Fin 100)) \<and>
     (\<exists>I. intersections cg 6 = Some (BasicIntersection I) \<and> bounds h' I = Some (Fin 101, PlusInf))"
  by (simp add: XXX_build_def XXX_block_def XXX_instr_def XXX_sigma_def example_left_fn_def example_fn_def
      example_blocks_def
      example_instrs_def andThen_def empty_graph_def heap_of_def in_else_branch_def constantToBigInt_def
      NewInt_def constant_intersection_def NewInterval_def bounds_def Inf_num_def NegInf_def infinity_def deref_def
      big_Sub_def big_Add_def one_def)

theorem builder_constant_intersection_witness:
  "\<exists>cg h'. XXX_build example_left_fn (heap_of []) = Inr (cg, h') \<and>
     distinct (concat (map (\<lambda>b. Instrs (block_of example_left_fn b)) (Blocks example_left_fn))) \<and>
     2 \<in> set (Blocks example_left_fn) \<and> 7 \<in> set (Instrs (block_of example_left_fn 2)) \<and>
     instr_of example_left_fn 7 = Sigma 2 0 \<and> is_integer example_left_fn 7 \<and>
     Control (block_of example_left_fn 0) = Some 5 \<and> instr_of example_left_fn 5 = If 4 \<and>
     instr_of example_left_fn 4 = BinOp LSS 3 2 \<and> LSS \<in> comparisons \<and>
     Succs (block_of example_left_fn 0) = [1, 2] \<and>
     as_Const (instr_of example_left_fn 2) = None \<and> instr_of example_left_fn 3 = Const (IntVal 100) \<and>
     branch_op True (2 = (2::nat)) LSS = LEQ \<and>
     (\<exists>I. intersections cg 7 = Some (BasicIntersection I) \<and> bounds h' I = Some (MinusInf, Fin 100))"
proof -
  obtain cg h' where run: "XXX_build example_left_fn (heap_of []) = Inr (cg, h')"
    using example_build by blast
  have facts:
    "distinct (concat (map (\<lambda>b. Instrs (block_of example_left_fn b)) (Blocks example_left_fn)))"
    "2 \<in> set (Blocks example_left_fn)" "7 \<in> set (Instrs (block_of example_left_fn 2))"
    "instr_of example_left_fn 7 = Sigma 2 0" "is_integer example_left_fn 7"
    "Control (block_of example_left_fn 0) = Some 5" "instr_of example_left_fn 5 = If 4"
    "instr_of example_left_fn 4 = BinOp LSS 3 2" "LSS \<in> comparisons"
    "Succs (block_of example_left_fn 0) = [1, 2]"
    "as_Const (instr_of example_left_fn 2) = None" "instr_of example_left_fn 3 = Const (IntVal 100)"
    "branch_op True (2 = (2::nat)) LSS = LEQ"
    by (simp_all add: example_left_fn_def example_fn_def example_blocks_def example_instrs_def
        comparisons_def branch_op_def)
  have "\<exists>I. intersections cg 7 = Some (BasicIntersection I) \<and>
          bounds h' I = constant_table (branch_op True (2 = (2::nat)) LSS) 100"
    using builder_constant_intersection [OF run facts(1-10), where k = 100 and left = True]
      facts(11,12)
    by simp
  then have "\<exists>I. intersections cg 7 = Some (BasicIntersection I) \<and> bounds h' I = Some (MinusInf, Fin 100)"
    unfolding facts(13) by simp
  then show ?thesis using run facts by blast
qed

subsection \<open>Lattice laws of intervals\<close>

lemma emp_simps [simp]: "emp None = False" "emp (Some (l, u)) = (u < l)"
  by (simp_all add: emp_def)

lemma Cmp_key: "Cmp h x y = (if nkey h x < nkey h y then - 1 else if nkey h x = nkey h y then 0 else 1)"
  by (cases x; cases y) (auto simp: big_Cmp_def)

lemma Empty_view: "consistent x \<Longrightarrow> Empty h x = Inr (emp (view h x))"
  by (cases "Lower x"; cases "Upper x")
     (auto simp: consistent_def Empty_def Undefined_def andThen_def Cmp_method_def Cmp_key view_def
           simp del: Cmp.simps)

lemma Equal_view: "consistent x \<Longrightarrow> consistent y \<Longrightarrow> Equal h x y = Inr (view h x = view h y)"
  by (cases "Lower x"; cases "Upper x"; cases "Lower y"; cases "Upper y")
     (auto simp: consistent_def Equal_def andThen_def Cmp_method_def Cmp_key view_def
           simp del: Cmp.simps)

lemma Union_view:
  assumes "consistent x" "consistent y"
  shows "\<exists>r. Union_ival h x y = Inr r \<and> consistent r \<and> view h r = uview (view h x) (view h y)"
  using assms
  by (cases "Lower x"; cases "Upper x"; cases "Lower y"; cases "Upper y")
     (auto simp: Union_ival_def Empty_view consistent_def Undefined_def andThen_def Cmp_method_def Cmp_key
             view_def uview_def NewInterval_def min_def max_def
           simp del: Cmp.simps)

lemma Intersect_view:
  assumes "consistent x" "consistent y"
  shows "\<exists>r. Intersect h x y = Inr r \<and> consistent r \<and> view h r = iview empty_view (view h x) (view h y)"
  using assms
  by (cases "Lower x"; cases "Upper x"; cases "Lower y"; cases "Upper y")
     (auto simp: Intersect_def Empty_view consistent_def Undefined_def andThen_def Cmp_method_def Cmp_key
             view_def iview_def NewInterval_def min_def max_def Empty_var_def Inf_num_def NegInf_def empty_view_def
           simp del: Cmp.simps)

lemma same_view: "consistent a \<Longrightarrow> consistent b \<Longrightarrow>
   same_interval h a b = (view h a = view h b \<or> (emp (view h a) \<and> emp (view h b)))"
  by (simp add: same_interval_def Equal_view Empty_view)

lemma emp_empty_view [simp]: "emp empty_view"
  by (simp add: empty_view_def)


lemma uview_simps:
  "emp a \<Longrightarrow> uview a b = b"
  "\<not> emp a \<Longrightarrow> emp b \<Longrightarrow> uview a b = a"
  "\<not> emp b \<Longrightarrow> uview None b = b"
  "\<not> emp a \<Longrightarrow> uview a None = a"
  "al \<le> au \<Longrightarrow> bl \<le> bu \<Longrightarrow> uview (Some (al, au)) (Some (bl, bu)) = Some (min al bl, max au bu)"
  by (auto simp: uview_def split: option.splits)

lemma uview_not_emp: "\<not> emp a \<Longrightarrow> \<not> emp b \<Longrightarrow> \<not> emp (uview a b)"
  by (cases a; cases b) (auto simp: uview_def not_less min_le_iff_disj le_max_iff_disj)

lemma uview_comm: "uview a b = uview b a \<or> (emp (uview a b) \<and> emp (uview b a))"
proof (cases "emp a \<or> emp b")
  case True
  then show ?thesis by (cases "emp a"; cases "emp b") (simp_all add: uview_simps)
next
  case False
  then show ?thesis
    by (cases a; cases b) (auto simp: uview_def min.commute max.commute)
qed

lemma uview_assoc: "uview (uview a b) c = uview a (uview b c)"
proof -
  consider "emp a" | "\<not> emp a" "emp b" | "\<not> emp a" "\<not> emp b" "emp c"
    | "\<not> emp a" "\<not> emp b" "\<not> emp c"
    by blast
  then show ?thesis
  proof cases
    case 1
    then show ?thesis by (simp add: uview_simps)
  next
    case 2
    then show ?thesis by (cases "emp c") (simp_all add: uview_simps)
  next
    case 3
    then show ?thesis using uview_not_emp [of a b] by (simp add: uview_simps)
  next
    case 4
    then show ?thesis
      by (cases a; cases b; cases c)
         (auto simp: uview_simps not_less min.assoc max.assoc min_le_iff_disj le_max_iff_disj)
  qed
qed

lemma iview_comm: "iview e a b = iview e b a"
  by (cases a; cases b) (auto simp: iview_def min.commute max.commute)

lemma iview_idem: "emp e \<Longrightarrow> iview e a a = a \<or> (emp (iview e a a) \<and> emp a)"
  by (cases a) (auto simp: iview_def)

lemma iview_assoc:
  assumes "emp e"
  shows "iview e (iview e a b) c = iview e a (iview e b c) \<or>
         (emp (iview e (iview e a b) c) \<and> emp (iview e a (iview e b c)))"
proof (cases "emp a \<or> emp b \<or> emp c")
  case True
  then show ?thesis using assms by (auto simp: iview_def)
next
  case ne: False
  show ?thesis
  proof (cases a)
    case None
    then show ?thesis using ne assms by (auto simp: iview_def split: option.splits)
  next
    case (Some pa)
    show ?thesis
    proof (cases b)
      case None
      then show ?thesis using ne assms Some by (auto simp: iview_def split: option.splits)
    next
      case Sb: (Some pb)
      show ?thesis
      proof (cases c)
        case None
        then show ?thesis using ne assms Some Sb by (auto simp: iview_def split: option.splits)
      next
        case Sc: (Some pc)
        obtain al au bl bu cl cu where p: "pa = (al, au)" "pb = (bl, bu)" "pc = (cl, cu)"
          by (cases pa; cases pb; cases pc) auto
        have le: "al \<le> au" "bl \<le> bu" "cl \<le> cu"
          using ne Some Sb Sc p by (simp_all add: not_less)
        show ?thesis
          unfolding Some Sb Sc p iview_def using le assms
          by (simp add: max.assoc min.assoc not_less)
             (auto simp: min_less_iff_disj less_max_iff_disj min_le_iff_disj le_max_iff_disj not_less)
      qed
    qed
  qed
qed

lemma Union_idem: "consistent x \<Longrightarrow> Union_ival h x x = Inr x"
  by (cases "Lower x"; cases "Upper x")
     (auto simp: Union_ival_def Empty_def consistent_def Undefined_def andThen_def Cmp_method_def
        NewInterval_def)

lemma Intersect_absorb: "Empty h x = Inr True \<Longrightarrow> Intersect h x y = Inr Empty_var"
  by (simp add: Intersect_def andThen_def)

lemma Empty_Empty_var: "Empty h Empty_var = Inr True"
  by (simp add: Empty_def Empty_var_def Undefined_def andThen_def Cmp_method_def Inf_num_def NegInf_def)

lemma Union_undefined:
  "consistent x \<Longrightarrow>
   Union_ival h undefined_interval x = Inr (if Empty h x = Inr True then undefined_interval else x)"
  by (cases "Lower x"; cases "Upper x")
     (auto simp: Union_ival_def Empty_def consistent_def Undefined_def andThen_def Cmp_method_def
        undefined_interval_def split: if_splits)

lemma Union_laws:
  assumes x: "consistent x" and y: "consistent y" and z: "consistent z"
  shows "\<exists>xy yx yz xy_z x_yz.
           Union_ival h x y = Inr xy \<and> Union_ival h y x = Inr yx \<and> same_interval h xy yx \<and>
           Union_ival h y z = Inr yz \<and> Union_ival h xy z = Inr xy_z \<and> Union_ival h x yz = Inr x_yz \<and>
           Equal h xy_z x_yz = Inr True"
proof -
  obtain xy where xy: "Union_ival h x y = Inr xy" "consistent xy" "view h xy = uview (view h x) (view h y)"
    using Union_view [OF x y] by blast
  obtain yx where yx: "Union_ival h y x = Inr yx" "consistent yx" "view h yx = uview (view h y) (view h x)"
    using Union_view [OF y x] by blast
  obtain yz where yz: "Union_ival h y z = Inr yz" "consistent yz" "view h yz = uview (view h y) (view h z)"
    using Union_view [OF y z] by blast
  obtain xy_z where xy_z: "Union_ival h xy z = Inr xy_z" "consistent xy_z"
      "view h xy_z = uview (view h xy) (view h z)"
    using Union_view [OF xy(2) z] by blast
  obtain x_yz where x_yz: "Union_ival h x yz = Inr x_yz" "consistent x_yz"
      "view h x_yz = uview (view h x) (view h yz)"
    using Union_view [OF x yz(2)] by blast
  have "same_interval h xy yx"
    using uview_comm [of "view h x" "view h y"] by (simp add: same_view xy yx)
  moreover have "Equal h xy_z x_yz = Inr True"
    using uview_assoc [of "view h x" "view h y" "view h z"]
    by (simp add: Equal_view xy_z x_yz xy yz)
  ultimately show ?thesis
    using xy(1) yx(1) yz(1) xy_z(1) x_yz(1) by blast
qed

lemma Intersect_laws:
  assumes x: "consistent x" and y: "consistent y" and z: "consistent z"
  shows "\<exists>xy yx yz xy_z x_yz xx.
           Intersect h x y = Inr xy \<and> Intersect h y x = Inr yx \<and> Equal h xy yx = Inr True \<and>
           Intersect h y z = Inr yz \<and> Intersect h xy z = Inr xy_z \<and> Intersect h x yz = Inr x_yz \<and>
           same_interval h xy_z x_yz \<and>
           Intersect h x x = Inr xx \<and> same_interval h xx x"
proof -
  obtain xy where xy: "Intersect h x y = Inr xy" "consistent xy"
      "view h xy = iview empty_view (view h x) (view h y)"
    using Intersect_view [OF x y] by blast
  obtain yx where yx: "Intersect h y x = Inr yx" "consistent yx"
      "view h yx = iview empty_view (view h y) (view h x)"
    using Intersect_view [OF y x] by blast
  obtain yz where yz: "Intersect h y z = Inr yz" "consistent yz"
      "view h yz = iview empty_view (view h y) (view h z)"
    using Intersect_view [OF y z] by blast
  obtain xy_z where xy_z: "Intersect h xy z = Inr xy_z" "consistent xy_z"
      "view h xy_z = iview empty_view (view h xy) (view h z)"
    using Intersect_view [OF xy(2) z] by blast
  obtain x_yz where x_yz: "Intersect h x yz = Inr x_yz" "consistent x_yz"
      "view h x_yz = iview empty_view (view h x) (view h yz)"
    using Intersect_view [OF x yz(2)] by blast
  obtain xx where xx: "Intersect h x x = Inr xx" "consistent xx"
      "view h xx = iview empty_view (view h x) (view h x)"
    using Intersect_view [OF x x] by blast
  have "Equal h xy yx = Inr True"
    using iview_comm [of empty_view "view h x" "view h y"] by (simp add: Equal_view xy yx)
  moreover have "same_interval h xy_z x_yz"
    using iview_assoc [of empty_view "view h x" "view h y" "view h z"]
    by (simp add: same_view xy_z x_yz xy yz)
  moreover have "same_interval h xx x"
    using iview_idem [of empty_view "view h x"] by (simp add: same_view xx x)
  ultimately show ?thesis
    using xy(1) yx(1) yz(1) xy_z(1) x_yz(1) xx(1) by blast
qed

text \<open>
  C9 (as the code has it). For intervals with both endpoints present or both absent,
  with results compared by \<open>Equal\<close>: \<open>Union\<close> is associative, \<open>Intersect\<close> is
  commutative, and \<open>Union\<close> is idempotent (it returns its argument); \<open>Union\<close> is
  commutative, and \<open>Intersect\<close> is associative and idempotent, once all empty
  intervals count as the same; an empty interval intersected with anything gives the
  empty interval \<open>[+\<infinity>, -\<infinity>]\<close>; and the union of the undefined interval with \<open>x\<close>
  is \<open>x\<close>, except that it is the undefined interval when \<open>x\<close> is empty.
\<close>

theorem lattice_laws_up_to_empty:
  assumes x: "consistent x" and y: "consistent y" and z: "consistent z"
  shows "(\<exists>xy yx yz xy_z x_yz.
           Union_ival h x y = Inr xy \<and> Union_ival h y x = Inr yx \<and> same_interval h xy yx \<and>
           Union_ival h y z = Inr yz \<and> Union_ival h xy z = Inr xy_z \<and> Union_ival h x yz = Inr x_yz \<and>
           Equal h xy_z x_yz = Inr True) \<and>
         Union_ival h x x = Inr x \<and>
         (\<exists>xy yx yz xy_z x_yz xx.
           Intersect h x y = Inr xy \<and> Intersect h y x = Inr yx \<and> Equal h xy yx = Inr True \<and>
           Intersect h y z = Inr yz \<and> Intersect h xy z = Inr xy_z \<and> Intersect h x yz = Inr x_yz \<and>
           same_interval h xy_z x_yz \<and>
           Intersect h x x = Inr xx \<and> same_interval h xx x) \<and>
         (Empty h x = Inr True \<longrightarrow> Intersect h x y = Inr Empty_var \<and> Empty h Empty_var = Inr True) \<and>
         Union_ival h undefined_interval x =
           Inr (if Empty h x = Inr True then undefined_interval else x)"
  using Union_laws [OF x y z] Union_idem [OF x] Intersect_laws [OF x y z]
    Intersect_absorb [of h x y] Empty_Empty_var [of h] Union_undefined [OF x]
  by simp

text \<open>
  C9 as stated fails, in a heap holding the integers 0, 3, 5, 10, 0, 20 at the
  addresses 0 to 5. The union of the undefined interval with the empty interval is
  undefined, not empty. Intersecting the empty interval \<open>[5, 3]\<close> with itself gives
  \<open>[+\<infinity>, -\<infinity>]\<close>, which is not \<open>Equal\<close> to it. The union of \<open>[5, 3]\<close> with
  \<open>[+\<infinity>, -\<infinity>]\<close> is the second operand, so it depends on the order. For
  \<open>x = [0, 3]\<close>, \<open>y = [5, 10]\<close>, \<open>z = [0, 20]\<close>, \<open>(x \<inter> y) \<inter> z\<close> is \<open>[+\<infinity>, -\<infinity>]\<close>
  and \<open>x \<inter> (y \<inter> z)\<close> is \<open>[5, 3]\<close>, which are not \<open>Equal\<close>. An interval with one
  endpoint missing makes the operations panic.
\<close>

theorem lattice_laws_counterexample:
  "Union_ival (heap_of [0, 3, 5, 10, 0, 20]) undefined_interval Empty_var = Inr undefined_interval \<and>
   Equal (heap_of [0, 3, 5, 10, 0, 20]) undefined_interval Empty_var = Inr False \<and>
   Intersect (heap_of [0, 3, 5, 10, 0, 20]) (iv (Number 2) (Number 1)) (iv (Number 2) (Number 1)) =
     Inr Empty_var \<and>
   Equal (heap_of [0, 3, 5, 10, 0, 20]) Empty_var (iv (Number 2) (Number 1)) = Inr False \<and>
   Union_ival (heap_of [0, 3, 5, 10, 0, 20]) (iv (Number 2) (Number 1)) Empty_var = Inr Empty_var \<and>
   Union_ival (heap_of [0, 3, 5, 10, 0, 20]) Empty_var (iv (Number 2) (Number 1)) =
     Inr (iv (Number 2) (Number 1)) \<and>
   Intersect (heap_of [0, 3, 5, 10, 0, 20]) (iv (Number 0) (Number 1)) (iv (Number 2) (Number 3)) =
     Inr (iv (Number 2) (Number 1)) \<and>
   Intersect (heap_of [0, 3, 5, 10, 0, 20]) (iv (Number 2) (Number 1)) (iv (Number 4) (Number 5)) =
     Inr Empty_var \<and>
   Intersect (heap_of [0, 3, 5, 10, 0, 20]) (iv (Number 2) (Number 3)) (iv (Number 4) (Number 5)) =
     Inr (iv (Number 2) (Number 3)) \<and>
   Union_ival (heap_of [0, 3, 5, 10, 0, 20]) \<lparr>Lower = Some (Number 0), Upper = None\<rparr>
     (iv (Number 2) (Number 3)) = Inl InconsistentInterval \<and>
   Intersect (heap_of [0, 3, 5, 10, 0, 20]) \<lparr>Lower = Some (Number 0), Upper = None\<rparr>
     (iv (Number 2) (Number 3)) = Inl InconsistentInterval"
  by (simp add: Union_ival_def Intersect_def Equal_def Empty_def Undefined_def Cmp_method_def andThen_def
      undefined_interval_def Empty_var_def iv_def heap_of_def Inf_num_def NegInf_def big_Cmp_def NewInterval_def)

text \<open>
  The laws at \<open>x = [0, 3]\<close>, \<open>y = [5, 10]\<close>, \<open>z = [0, 20]\<close> in the same heap, where
  unions take the hull and intersections the meet, and at the empty interval
  \<open>[5, 3]\<close>.
\<close>

theorem lattice_laws_up_to_empty_witness:
  "consistent (iv (Number 0) (Number 1)) \<and> consistent (iv (Number 2) (Number 3)) \<and>
   consistent (iv (Number 4) (Number 5)) \<and> consistent (iv (Number 2) (Number 1)) \<and>
   Union_ival (heap_of [0, 3, 5, 10, 0, 20]) (iv (Number 0) (Number 1)) (iv (Number 2) (Number 3)) =
     Inr (iv (Number 0) (Number 3)) \<and>
   Union_ival (heap_of [0, 3, 5, 10, 0, 20]) (iv (Number 2) (Number 3)) (iv (Number 0) (Number 1)) =
     Inr (iv (Number 0) (Number 3)) \<and>
   Union_ival (heap_of [0, 3, 5, 10, 0, 20]) (iv (Number 2) (Number 3)) (iv (Number 4) (Number 5)) =
     Inr (iv (Number 4) (Number 5)) \<and>
   (\<exists>xy_z x_yz.
      Union_ival (heap_of [0, 3, 5, 10, 0, 20]) (iv (Number 0) (Number 3)) (iv (Number 4) (Number 5)) = Inr xy_z \<and>
      Union_ival (heap_of [0, 3, 5, 10, 0, 20]) (iv (Number 0) (Number 1)) (iv (Number 4) (Number 5)) = Inr x_yz \<and>
      Equal (heap_of [0, 3, 5, 10, 0, 20]) xy_z x_yz = Inr True) \<and>
   Intersect (heap_of [0, 3, 5, 10, 0, 20]) (iv (Number 2) (Number 3)) (iv (Number 4) (Number 5)) =
     Inr (iv (Number 2) (Number 3)) \<and>
   Intersect (heap_of [0, 3, 5, 10, 0, 20]) (iv (Number 0) (Number 1)) (iv (Number 2) (Number 3)) =
     Inr (iv (Number 2) (Number 1)) \<and>
   (\<exists>yx xy_z x_yz xx.
      Intersect (heap_of [0, 3, 5, 10, 0, 20]) (iv (Number 2) (Number 3)) (iv (Number 0) (Number 1)) = Inr yx \<and>
      Equal (heap_of [0, 3, 5, 10, 0, 20]) (iv (Number 2) (Number 1)) yx = Inr True \<and>
      Intersect (heap_of [0, 3, 5, 10, 0, 20]) (iv (Number 2) (Number 1)) (iv (Number 4) (Number 5)) = Inr xy_z \<and>
      Intersect (heap_of [0, 3, 5, 10, 0, 20]) (iv (Number 0) (Number 1)) (iv (Number 2) (Number 3)) = Inr x_yz \<and>
      same_interval (heap_of [0, 3, 5, 10, 0, 20]) xy_z x_yz \<and>
      Intersect (heap_of [0, 3, 5, 10, 0, 20]) (iv (Number 0) (Number 1)) (iv (Number 0) (Number 1)) = Inr xx \<and>
      same_interval (heap_of [0, 3, 5, 10, 0, 20]) xx (iv (Number 0) (Number 1))) \<and>
   Union_ival (heap_of [0, 3, 5, 10, 0, 20]) undefined_interval (iv (Number 0) (Number 1)) =
     Inr (iv (Number 0) (Number 1)) \<and>
   Empty (heap_of [0, 3, 5, 10, 0, 20]) (iv (Number 2) (Number 1)) = Inr True \<and>
   Intersect (heap_of [0, 3, 5, 10, 0, 20]) (iv (Number 2) (Number 1)) (iv (Number 2) (Number 3)) =
     Inr Empty_var \<and>
   Union_ival (heap_of [0, 3, 5, 10, 0, 20]) undefined_interval (iv (Number 2) (Number 1)) =
     Inr undefined_interval"
proof -
  let ?h = "heap_of [0, 3, 5, 10, 0, 20]"
  have c: "consistent (iv (Number 0) (Number 1))" "consistent (iv (Number 2) (Number 3))"
    "consistent (iv (Number 4) (Number 5))" "consistent (iv (Number 2) (Number 1))"
    by (simp_all add: consistent_def iv_def)
  have e: "Empty ?h (iv (Number 2) (Number 1)) = Inr True"
    "Empty ?h (iv (Number 0) (Number 1)) = Inr False"
    by (simp_all add: Empty_def Undefined_def Cmp_method_def andThen_def iv_def heap_of_def big_Cmp_def)
  have u: "Union_ival ?h (iv (Number 0) (Number 1)) (iv (Number 2) (Number 3)) = Inr (iv (Number 0) (Number 3))"
    "Union_ival ?h (iv (Number 2) (Number 3)) (iv (Number 0) (Number 1)) = Inr (iv (Number 0) (Number 3))"
    "Union_ival ?h (iv (Number 2) (Number 3)) (iv (Number 4) (Number 5)) = Inr (iv (Number 4) (Number 5))"
    by (simp_all add: Union_ival_def Empty_def Undefined_def Cmp_method_def andThen_def iv_def heap_of_def
        big_Cmp_def NewInterval_def)
  have i: "Intersect ?h (iv (Number 2) (Number 3)) (iv (Number 4) (Number 5)) = Inr (iv (Number 2) (Number 3))"
    "Intersect ?h (iv (Number 0) (Number 1)) (iv (Number 2) (Number 3)) = Inr (iv (Number 2) (Number 1))"
    by (simp_all add: Intersect_def Empty_def Undefined_def Cmp_method_def andThen_def iv_def heap_of_def
        big_Cmp_def NewInterval_def)
  have big: "(\<exists>xy_z x_yz.
      Union_ival ?h (iv (Number 0) (Number 3)) (iv (Number 4) (Number 5)) = Inr xy_z \<and>
      Union_ival ?h (iv (Number 0) (Number 1)) (iv (Number 4) (Number 5)) = Inr x_yz \<and>
      Equal ?h xy_z x_yz = Inr True) \<and>
    (\<exists>yx xy_z x_yz xx.
      Intersect ?h (iv (Number 2) (Number 3)) (iv (Number 0) (Number 1)) = Inr yx \<and>
      Equal ?h (iv (Number 2) (Number 1)) yx = Inr True \<and>
      Intersect ?h (iv (Number 2) (Number 1)) (iv (Number 4) (Number 5)) = Inr xy_z \<and>
      Intersect ?h (iv (Number 0) (Number 1)) (iv (Number 2) (Number 3)) = Inr x_yz \<and>
      same_interval ?h xy_z x_yz \<and>
      Intersect ?h (iv (Number 0) (Number 1)) (iv (Number 0) (Number 1)) = Inr xx \<and>
      same_interval ?h xx (iv (Number 0) (Number 1))) \<and>
    Union_ival ?h undefined_interval (iv (Number 0) (Number 1)) = Inr (iv (Number 0) (Number 1))"
    using lattice_laws_up_to_empty [OF c(1,2,3), of ?h]
    by (auto simp: u i e simp del: One_nat_def)
  have emp: "Intersect ?h (iv (Number 2) (Number 1)) (iv (Number 2) (Number 3)) = Inr Empty_var \<and>
    Union_ival ?h undefined_interval (iv (Number 2) (Number 1)) = Inr undefined_interval"
    using lattice_laws_up_to_empty [OF c(4) c(2) c(3), of ?h] e(1) by simp
  show ?thesis
    using c u i big emp e(1) by blast
qed

subsection \<open>Widening\<close>

text \<open>
  C2 (what the code does instead). When \<open>old\<close> is defined and the lower bound of
  \<open>new\<close> is not below that of \<open>old\<close>, the widening step leaves the graph as it is,
  whatever the upper bounds are: growth of the upper bound alone never widens it to
  \<open>+\<infinity>\<close>, because the last test compares \<open>new.Upper\<close> with itself.
\<close>

theorem widen_ignores_upper_growth:
  assumes "Undefined old = Inr False"
    and "Cmp_method h (Lower new) (Lower old) = Inr c" and "c \<noteq> - 1"
    and "Upper new \<noteq> None"
  shows "widen cg op old new h = Inr cg"
  using assms by (auto simp: widen_def andThen_def Cmp_method_def)

theorem widen_ignores_upper_growth_witness:
  "Undefined (iv (Number 0) (Number 1)) = Inr False \<and>
   Cmp_method (heap_of [0, 0, 0, 1]) (Lower (iv (Number 2) (Number 3))) (Lower (iv (Number 0) (Number 1))) = Inr 0 \<and>
   Cmp_method (heap_of [0, 0, 0, 1]) (Upper (iv (Number 2) (Number 3))) (Upper (iv (Number 0) (Number 1))) = Inr 1 \<and>
   widen empty_graph 0 (iv (Number 0) (Number 1)) (iv (Number 2) (Number 3)) (heap_of [0, 0, 0, 1]) =
     Inr empty_graph"
  using widen_ignores_upper_growth [of "iv (Number 0) (Number 1)" "heap_of [0, 0, 0, 1]"
      "iv (Number 2) (Number 3)" 0 empty_graph 0]
  by (simp add: Undefined_def Cmp_method_def heap_of_def big_Cmp_def iv_def)

subsection \<open>Transfer functions\<close>

text \<open>
  C3 (what the code does instead). The result of \<open>eval\<close> on a sigma node \<open>v\<close> does
  not depend on the interval bound to its operand \<open>X\<close>: the code intersects the
  interval bound to \<open>v\<close> itself.
\<close>

theorem eval_Sigma_ignores_operand:
  assumes "instr_of fn v = Sigma X From" and "X \<noteq> v"
  shows "eval fn (set_interval cg X i) v h = eval fn cg v h"
  using assms
  by (simp add: eval_def eval_Sigma_def set_interval_def interval_at_def split: option.splits)

theorem eval_Sigma_ignores_operand_witness:
  "instr_of example_fn 6 = Sigma 2 0 \<and> (2::nat) \<noteq> 6 \<and>
   eval example_fn
     (set_interval (empty_graph\<lparr>intersections := [6 \<mapsto> BasicIntersection (iv NegInf (Number 0))]\<rparr>)
        2 (iv (Number 1) (Number 2)))
     6 (heap_of [5, 0, 10]) = Inr (iv NegInf (Number 0), heap_of [5, 0, 10])"
proof -
  have "eval example_fn (empty_graph\<lparr>intersections := [6 \<mapsto> BasicIntersection (iv NegInf (Number 0))]\<rparr>)
          6 (heap_of [5, 0, 10]) = Inr (iv NegInf (Number 0), heap_of [5, 0, 10])"
    by (simp add: eval_def eval_Sigma_def example_fn_def example_instrs_def empty_graph_def
        interval_at_def undefined_interval_def andThen_def Intersect_def Empty_def Undefined_def
        Cmp_method_def iv_def NegInf_def)
  moreover have "instr_of example_fn 6 = Sigma 2 0"
    by (simp add: example_fn_def example_instrs_def)
  ultimately show ?thesis
    using eval_Sigma_ignores_operand [of example_fn 6 2 0 _ "iv (Number 1) (Number 2)" "heap_of [5, 0, 10]"]
    by simp
qed

text \<open>
  C8 (as the code has it). For a \<open>BinOp\<close> node whose operator is not \<open>ADD\<close> and whose
  operands have consistent intervals, \<open>eval\<close> returns the undefined interval when an
  operand's interval is undefined, and panics otherwise.
\<close>

theorem eval_BinOp_not_ADD:
  assumes "instr_of fn v = BinOp op X Y" and "op \<noteq> ADD"
    and "consistent (interval_at cg X)" and "consistent (interval_at cg Y)"
  shows "eval fn cg v h =
     (if Lower (interval_at cg X) = None \<or> Lower (interval_at cg Y) = None
      then Inr (undefined_interval, h) else Inl UnhandledToken)"
  using assms
  by (cases op)
     (auto simp: eval_def eval_BinOp_def andThen_def Undefined_def consistent_def NewInterval_def
        undefined_interval_def Let_def)

theorem eval_BinOp_not_ADD_witness:
  "instr_of example_fn 4 = BinOp LSS 2 3 \<and> LSS \<noteq> ADD \<and>
   consistent (interval_at (empty_graph\<lparr>intervals := example_intervals\<rparr>) 2) \<and>
   consistent (interval_at (empty_graph\<lparr>intervals := example_intervals\<rparr>) 3) \<and>
   eval example_fn (empty_graph\<lparr>intervals := example_intervals\<rparr>) 4 (heap_of [12, 100]) =
     Inl UnhandledToken"
  using eval_BinOp_not_ADD [of example_fn 4 LSS 2 3 "empty_graph\<lparr>intervals := example_intervals\<rparr>"
      "heap_of [12, 100]"]
  by (simp add: example_fn_def example_instrs_def example_intervals_def interval_at_def empty_graph_def
      consistent_def iv_def)

text \<open>
  C8 as stated fails: with both operands defined, \<open>eval\<close> on a subtraction panics
  instead of returning \<open>[-\<infinity>, +\<infinity>]\<close>.
\<close>

theorem eval_SUB_panics:
  "eval (example_fn\<lparr>instr_of := (instr_of example_fn)(2 := BinOp SUB 0 1)\<rparr>)
     (empty_graph\<lparr>intervals := [0 \<mapsto> iv (Number 0) (Number 0), 1 \<mapsto> iv (Number 1) (Number 1)]\<rparr>)
     2 (heap_of [5, 7]) = Inl UnhandledToken"
  by (simp add: eval_def eval_BinOp_def example_fn_def example_instrs_def empty_graph_def
      interval_at_def andThen_def Undefined_def iv_def)

subsection \<open>The loop over the components\<close>

lemma XXX_widen_node_intersections:
  assumes "XXX_widen_node fn op (cg, h, c) = Inr (cg', h', c')"
  shows "intersections cg' = intersections cg \<and> nodes cg' = nodes cg"
  using assms
  unfolding XXX_widen_node_def widen_def
  by (auto simp: andThen_def set_interval_def Let_def split: sum.splits if_splits prod.splits)

lemma XXX_round_intersections:
  assumes "for_each (XXX_widen_node fn) scc s = Inr s'"
  shows "intersections (fst s') = intersections (fst s) \<and> nodes (fst s') = nodes (fst s)"
proof (rule for_each_preserves [OF assms,
      where P = "\<lambda>t. intersections (fst t) = intersections (fst s) \<and> nodes (fst t) = nodes (fst s)"])
  show "intersections (fst s) = intersections (fst s) \<and> nodes (fst s) = nodes (fst s)" by simp
  fix x t t'
  assume "intersections (fst t) = intersections (fst s) \<and> nodes (fst t) = nodes (fst s)"
    and "XXX_widen_node fn x t = Inr t'"
  then show "intersections (fst t') = intersections (fst s) \<and> nodes (fst t') = nodes (fst s)"
    using XXX_widen_node_intersections [of fn x "fst t" "fst (snd t)" "snd (snd t)"
        "fst t'" "fst (snd t')" "snd (snd t')"]
    by simp
qed

lemma XXX_widening_same_graph:
  "XXX_widening fn scc s = Some r \<Longrightarrow> same_graph s r"
proof (induction rule: XXX_widening.raw_induct [rotated, consumes 1])
  case (1 f fn scc s r)
  note IH = 1(1) and body = 1(2)
  show ?case
  proof (cases "for_each (XXX_widen_node fn) scc (fst s, snd s, False)")
    case (Inl e)
    then have "r = Inl e" using body by simp
    then show ?thesis by (simp add: same_graph_def)
  next
    case (Inr t)
    obtain cg h changed where t: "t = (cg, h, changed)" by (cases t)
    have k: "intersections cg = intersections (fst s)" "nodes cg = nodes (fst s)"
      using XXX_round_intersections [OF Inr] t by simp_all
    show ?thesis
    proof (cases changed)
      case True
      then have "f fn scc (cg, h) = Some r" using body Inr t by simp
      then have "same_graph (cg, h) r" by (rule IH)
      then show ?thesis using k by (cases r) (simp_all add: same_graph_def)
    next
      case False
      then have "r = Inr (cg, h)" using body Inr t by simp
      then show ?thesis using k by (simp add: same_graph_def)
    qed
  qed
qed

text \<open>
  C1 (what the code does instead). The loop over the components only runs the
  widening loop on each: when it finishes, the intersections of the graph are the
  ones it started with, so no symbolic intersection has been replaced, and no
  narrowing has been run.
\<close>

theorem XXX_sccs_keeps_intersections:
  assumes "XXX_sccs fn components s = Some (Inr s')"
  shows "intersections (fst s') = intersections (fst s)"
  using assms
proof (induction components arbitrary: s)
  case Nil
  then show ?case by simp
next
  case (Cons scc rest)
  then obtain t where t: "XXX_scc fn scc s = Some (Inr t)" "XXX_sccs fn rest t = Some (Inr s')"
    by (auto split: option.splits sum.splits)
  have "XXX_widening fn scc s = Some (Inr t)"
    using t(1) by (simp add: XXX_scc_def split: if_splits)
  then have "intersections (fst t) = intersections (fst s)"
    using XXX_widening_same_graph [of fn scc s "Inr t"] by (simp add: same_graph_def)
  then show ?case using Cons.IH [OF t(2)] by simp
qed

theorem XXX_sccs_keeps_intersections_witness:
  "\<exists>s'. XXX_sccs example_sym_fn [[0], [1], [2], [3], [6], [7]] (example_sym_graph, heap_of []) = Some (Inr s') \<and>
        intersections (fst s') = intersections example_sym_graph \<and>
        intersections (fst s') 6 = Some (SymbolicIntersection LSS 3) \<and>
        interval_at (fst s') 6 = undefined_interval"
proof -
  have "\<exists>s'. XXX_sccs example_sym_fn [[0], [1], [2], [3], [6], [7]] (example_sym_graph, heap_of []) = Some (Inr s') \<and>
        intersections (fst s') 6 = Some (SymbolicIntersection LSS 3) \<and>
        interval_at (fst s') 6 = undefined_interval"
    by (simp add: example_sym_graph_def example_sym_fn_def example_fn_def example_instrs_def
        empty_graph_def heap_of_def andThen_def NewInt_def NewInterval_def Inf_num_def NegInf_def
        infinity_def deref_def big_Add_def constantToBigInt_def XXX_scc_def XXX_widening.simps
        XXX_widen_node_def eval_def eval_BinOp_def eval_Sigma_def constantToNumber_def widen_def
        Undefined_def Equal_def Cmp_method_def interval_at_def undefined_interval_def set_interval_def
        eval_add_lower_def eval_add_upper_def Intersect_def Empty_def big_Sign_def big_Cmp_def Let_def)
  then obtain s' where s': "XXX_sccs example_sym_fn [[0], [1], [2], [3], [6], [7]] (example_sym_graph, heap_of []) = Some (Inr s')"
      "intersections (fst s') 6 = Some (SymbolicIntersection LSS 3)"
      "interval_at (fst s') 6 = undefined_interval"
    by blast
  show ?thesis
    using XXX_sccs_keeps_intersections [OF s'(1)] s' by auto
qed

subsection \<open>Strongly connected components\<close>

lemma frame_refl [simp]: "frame st st"
  by (simp add: frame_def)

lemma frame_trans: "frame a b \<Longrightarrow> frame b c \<Longrightarrow> frame a c"
  unfolding frame_def
  by (metis (no_types, lifting) le_trans)

subsection \<open>Accessors under the state updates\<close>

lemma ensure_data_get [simp]: "get_data (ensure_data w st) = get_data st"
  by (auto simp: ensure_data_def get_data_def zero_vdata_def fun_eq_iff split: option.splits)

lemma ensure_data_fields [simp]:
  "S (ensure_data w st) = S st" "next_index (ensure_data w st) = next_index st"
  "sccs_list (ensure_data w st) = sccs_list st"
  by (simp_all add: ensure_data_def split: option.splits)

lemma ensure_data_acc [simp]:
  "ix (ensure_data w st) = ix st" "ll (ensure_data w st) = ll st" "os (ensure_data w st) = os st"
  by (simp_all add: ix_def ll_def os_def fun_eq_iff)

lemma ensure_data_emitted [simp]: "emitted (ensure_data w st) = emitted st"
  by (simp add: emitted_def)

lemma whites_ensure [simp]: "whites g (ensure_data w st) = whites g st"
  by (simp add: whites_def)

lemma ensure_data_Inv [simp]: "Inv g gs (ensure_data w st) = Inv g gs st"
  by (simp add: Inv_def inv_num_def inv_stack_def inv_gray_def inv_reach_def inv_sccs_def)

lemma ensure_data_frame [simp]:
  "frame (ensure_data w st) st' = frame st st'" "frame st (ensure_data w st') = frame st st'"
  by (simp_all add: frame_def)

lemma enter_fields [simp]:
  "S (enter v st) = v # S st" "sccs_list (enter v st) = sccs_list st"
  by (simp_all add: enter_def Let_def)

lemma enter_next_index:
  "Suc (next_index st) < 2 ^ 64 \<Longrightarrow> next_index (enter v st) = Suc (next_index st)"
  by (simp add: enter_def Let_def)

lemma enter_acc:
  "ix (enter v st) x = (if x = v then next_index st else ix st x)"
  "ll (enter v st) x = (if x = v then next_index st else ll st x)"
  "os (enter v st) x = (if x = v then True else os st x)"
  by (simp_all add: enter_def Let_def ix_def ll_def os_def get_data_def ensure_data_def split: option.splits)

lemma enter_new [simp]:
  "ix (enter v st) v = next_index st" "ll (enter v st) v = next_index st" "os (enter v st) v"
  by (simp_all add: enter_acc)

lemma enter_other [simp]:
  "x \<noteq> v \<Longrightarrow> ix (enter v st) x = ix st x"
  "x \<noteq> v \<Longrightarrow> ll (enter v st) x = ll st x"
  "x \<noteq> v \<Longrightarrow> os (enter v st) x = os st x"
  by (simp_all add: enter_acc)

lemma enter_emitted [simp]: "emitted (enter v st) = emitted st"
  by (simp add: emitted_def)

lemma update_lowlink_fields [simp]:
  "S (update_lowlink v w st) = S st" "next_index (update_lowlink v w st) = next_index st"
  "sccs_list (update_lowlink v w st) = sccs_list st"
  by (simp_all add: update_lowlink_def Let_def)

lemma update_lowlink_acc:
  "ix (update_lowlink v w st) = ix st"
  "ll (update_lowlink v w st) x = (if x = v then min (ll st v) (ll st w) else ll st x)"
  "os (update_lowlink v w st) = os st"
  by (auto simp: update_lowlink_def Let_def ix_def ll_def os_def get_data_def fun_eq_iff split: option.splits)

lemma update_lowlink_simps [simp]:
  "ix (update_lowlink v w st) = ix st"
  "ll (update_lowlink v w st) v = min (ll st v) (ll st w)"
  "x \<noteq> v \<Longrightarrow> ll (update_lowlink v w st) x = ll st x"
  "os (update_lowlink v w st) = os st"
  by (simp_all add: update_lowlink_acc)

lemma whites_update_lowlink [simp]: "whites g (update_lowlink v w st) = whites g st"
  by (simp add: whites_def)

lemma update_lowlink_emitted [simp]: "emitted (update_lowlink v w st) = emitted st"
  by (simp add: emitted_def)

lemma reach_refl [simp]: "reach g x x"
  by (simp add: reach_def)

lemma reach_trans: "reach g x y \<Longrightarrow> reach g y z \<Longrightarrow> reach g x z"
  by (auto simp: reach_def)

lemma reach_edge: "(x, y) \<in> edges g \<Longrightarrow> reach g x y"
  by (auto simp: reach_def)

lemma inv_numI:
  assumes "finite (g_nodes g)" "Suc (card (g_nodes g)) < 2 ^ 64"
    "next_index st + card (whites g st) \<le> Suc (card (g_nodes g))"
    "0 < next_index st" "\<And>x. ix st x < next_index st"
    "\<And>x y. ix st x = ix st y \<Longrightarrow> ix st x \<noteq> 0 \<Longrightarrow> x = y"
    "\<And>x. ix st x \<noteq> 0 \<Longrightarrow> x \<in> g_nodes g"
  shows "inv_num g st"
  unfolding inv_num_def using assms by blast

lemma inv_numD:
  assumes "inv_num g st"
  shows "0 < next_index st" "\<And>x. ix st x < next_index st"
    "\<And>x y. ix st x = ix st y \<Longrightarrow> ix st x \<noteq> 0 \<Longrightarrow> x = y"
    "\<And>x. ix st x \<noteq> 0 \<Longrightarrow> x \<in> g_nodes g"
    "finite (g_nodes g)" "Suc (card (g_nodes g)) < 2 ^ 64"
    "next_index st + card (whites g st) \<le> Suc (card (g_nodes g))"
  using assms unfolding inv_num_def by blast+

lemma whites_enter_eq:
  assumes "0 < next_index st"
  shows "whites g (enter v st) = whites g st - {v}"
proof (intro set_eqI iffI)
  fix x assume x: "x \<in> whites g (enter v st)"
  then have "x \<noteq> v" using assms by (auto simp: whites_def)
  then show "x \<in> whites g st - {v}" using x by (simp add: whites_def)
next
  fix x assume "x \<in> whites g st - {v}"
  then show "x \<in> whites g (enter v st)" by (simp add: whites_def)
qed

lemma enter_no_wrap:
  assumes "inv_num g st" "v \<in> g_nodes g" "ix st v = 0"
  shows "next_index (enter v st) = Suc (next_index st)"
    and "card (whites g (enter v st)) = card (whites g st) - 1" and "0 < card (whites g st)"
proof -
  note d = inv_numD [OF assms(1)]
  have fw: "finite (whites g st)" using d(5) by (simp add: whites_def)
  have vw: "v \<in> whites g st" using assms(2,3) by (simp add: whites_def)
  show pos: "0 < card (whites g st)" using fw vw by (auto simp: card_gt_0_iff)
  then have "Suc (next_index st) < 2 ^ 64" using d(6,7) by linarith
  then show "next_index (enter v st) = Suc (next_index st)" by (rule enter_next_index)
  show "card (whites g (enter v st)) = card (whites g st) - 1"
    using whites_enter_eq [OF d(1)] fw vw by (simp add: card_Diff_singleton)
qed

lemma inv_stackI:
  assumes "sorted_wrt (\<lambda>a b. ix st b < ix st a) (S st)"
    "\<And>x. os st x = (x \<in> set (S st))"
    "\<And>x. (ix st x \<noteq> 0) = (x \<in> set (S st) \<or> x \<in> emitted st)"
    "\<And>x. x \<in> set (S st) \<Longrightarrow> x \<notin> emitted st"
  shows "inv_stack st"
  unfolding inv_stack_def using assms by blast

lemma inv_stackD:
  assumes "inv_stack st"
  shows "sorted_wrt (\<lambda>a b. ix st b < ix st a) (S st)"
    "\<And>x. os st x = (x \<in> set (S st))"
    "\<And>x. (ix st x \<noteq> 0) = (x \<in> set (S st) \<or> x \<in> emitted st)"
    "\<And>x. x \<in> set (S st) \<Longrightarrow> x \<notin> emitted st"
  using assms unfolding inv_stack_def by blast+

lemma white_not_on_stack: "inv_stack st \<Longrightarrow> ix st w = 0 \<Longrightarrow> w \<notin> set (S st) \<and> w \<notin> emitted st"
  using inv_stackD(3) [of st w] by simp

lemma inv_num_enter:
  assumes "inv_num g st" "w \<in> g_nodes g" "ix st w = 0"
  shows "inv_num g (enter w st)"
proof (rule inv_numI)
  note d = inv_numD [OF assms(1)]
  note e = enter_no_wrap [OF assms]
  show "finite (g_nodes g)" "Suc (card (g_nodes g)) < 2 ^ 64" by (fact d)+
  show "next_index (enter w st) + card (whites g (enter w st)) \<le> Suc (card (g_nodes g))"
    using d(7) e by simp
  show "0 < next_index (enter w st)" using e(1) by simp
  show "ix (enter w st) x < next_index (enter w st)" for x
    using d(2) [of x] e(1) by (cases "x = w") simp_all
  show "x = y" if "ix (enter w st) x = ix (enter w st) y" "ix (enter w st) x \<noteq> 0" for x y
  proof (cases "x = w")
    case True
    then show ?thesis using that(1) d(2) [of y] by (cases "y = w") simp_all
  next
    case False
    then show ?thesis using that d(2) [of x] d(3) [of x y] by (cases "y = w") simp_all
  qed
  show "x \<in> g_nodes g" if "ix (enter w st) x \<noteq> 0" for x
    using that d(4) [of x] assms(2) by (cases "x = w") simp_all
qed

lemma sorted_wrt_cong_set:
  assumes "sorted_wrt (\<lambda>a b. f b < f a) xs" "\<And>x. x \<in> set xs \<Longrightarrow> f' x = f x"
  shows "sorted_wrt (\<lambda>a b. (f' b :: nat) < f' a) xs"
  by (rule sorted_wrt_mono_rel [OF _ assms(1)]) (simp add: assms(2))

lemma inv_stack_enter:
  assumes "inv_num g st" "inv_stack st" "ix st w = 0"
  shows "inv_stack (enter w st)"
proof (rule inv_stackI)
  note n = inv_numD [OF assms(1)] and s = inv_stackD [OF assms(2)]
  have w: "w \<notin> set (S st)" "w \<notin> emitted st"
    using white_not_on_stack [OF assms(2,3)] by auto
  have same: "ix (enter w st) x = ix st x" if "x \<in> set (S st)" for x
    using that w(1) by (cases "x = w") simp_all
  have "sorted_wrt (\<lambda>a b. ix (enter w st) b < ix (enter w st) a) (S st)"
    using s(1) same by (rule sorted_wrt_cong_set)
  moreover have "ix (enter w st) x < ix (enter w st) w" if "x \<in> set (S st)" for x
    using that same [OF that] n(2) [of x] by simp
  ultimately show "sorted_wrt (\<lambda>a b. ix (enter w st) b < ix (enter w st) a) (S (enter w st))"
    by simp
  show "os (enter w st) x = (x \<in> set (S (enter w st)))" for x
    using s(2) [of x] by (cases "x = w") simp_all
  show "(ix (enter w st) x \<noteq> 0) = (x \<in> set (S (enter w st)) \<or> x \<in> emitted (enter w st))" for x
    using s(3) [of x] n(1) by (cases "x = w") simp_all
  show "x \<notin> emitted (enter w st)" if "x \<in> set (S (enter w st))" for x
    using that s(4) [of x] w(2) by auto
qed

lemma inv_grayI:
  assumes "set gs \<subseteq> set (S st)" "sorted_wrt (\<lambda>a b. ix st b < ix st a) gs"
    "\<And>y. y \<in> set (S st) \<Longrightarrow> \<exists>g'\<in>set gs. ix st g' \<le> ix st y \<and> reach g y g'"
    "\<And>x w. ix st x \<noteq> 0 \<Longrightarrow> x \<notin> set gs \<Longrightarrow> (x, w) \<in> edges g \<Longrightarrow> ix st w \<noteq> 0"
  shows "inv_gray g gs st"
  unfolding inv_gray_def using assms by blast

lemma inv_grayD:
  assumes "inv_gray g gs st"
  shows "set gs \<subseteq> set (S st)" "sorted_wrt (\<lambda>a b. ix st b < ix st a) gs"
    "\<And>y. y \<in> set (S st) \<Longrightarrow> \<exists>g'\<in>set gs. ix st g' \<le> ix st y \<and> reach g y g'"
    "\<And>x w. ix st x \<noteq> 0 \<Longrightarrow> x \<notin> set gs \<Longrightarrow> (x, w) \<in> edges g \<Longrightarrow> ix st w \<noteq> 0"
  using assms unfolding inv_gray_def by blast+

lemma inv_reachI:
  assumes "\<And>x y. x \<in> set (S st) \<Longrightarrow> y \<in> set (S st) \<Longrightarrow> ix st x \<le> ix st y \<Longrightarrow> reach g x y"
    "\<And>x. x \<in> set (S st) \<Longrightarrow> ll st x \<le> ix st x"
    "\<And>x. x \<in> set (S st) \<Longrightarrow> \<exists>u\<in>set (S st). ix st u = ll st x \<and> reach g x u"
  shows "inv_reach g st"
  unfolding inv_reach_def using assms by blast

lemma inv_reachD:
  assumes "inv_reach g st"
  shows "\<And>x y. x \<in> set (S st) \<Longrightarrow> y \<in> set (S st) \<Longrightarrow> ix st x \<le> ix st y \<Longrightarrow> reach g x y"
    "\<And>x. x \<in> set (S st) \<Longrightarrow> ll st x \<le> ix st x"
    "\<And>x. x \<in> set (S st) \<Longrightarrow> \<exists>u\<in>set (S st). ix st u = ll st x \<and> reach g x u"
  using assms unfolding inv_reach_def by blast+

lemma gray_empty_stack: "inv_gray g [] st \<Longrightarrow> S st = []"
  using inv_grayD(3) [of g "[]" st] by (cases "S st") auto

lemma gray_hd_max:
  assumes "inv_gray g (v # gs) st" "x \<in> set (v # gs)"
  shows "ix st x \<le> ix st v"
  using inv_grayD(2) [OF assms(1)] assms(2) by auto

lemma inv_gray_enter:
  assumes "inv_num g st" "inv_stack st" "inv_gray g gs st" "ix st w = 0"
  shows "inv_gray g (w # gs) (enter w st)"
proof (rule inv_grayI)
  note n = inv_numD [OF assms(1)] and s = inv_stackD [OF assms(2)] and gr = inv_grayD [OF assms(3)]
  have w: "w \<notin> set (S st)" "w \<notin> emitted st"
    using white_not_on_stack [OF assms(2,4)] by auto
  have same: "ix (enter w st) x = ix st x" if "x \<in> set (S st)" for x
    using that w(1) by (cases "x = w") simp_all
  show "set (w # gs) \<subseteq> set (S (enter w st))"
    using gr(1) by auto
  have "sorted_wrt (\<lambda>a b. ix (enter w st) b < ix (enter w st) a) gs"
    using gr(2) by (rule sorted_wrt_cong_set) (use same gr(1) in auto)
  moreover have "ix (enter w st) x < ix (enter w st) w" if "x \<in> set gs" for x
    using that same [of x] gr(1) n(2) [of x] by auto
  ultimately show "sorted_wrt (\<lambda>a b. ix (enter w st) b < ix (enter w st) a) (w # gs)"
    by simp
  show "\<exists>g'\<in>set (w # gs). ix (enter w st) g' \<le> ix (enter w st) y \<and> reach g y g'"
    if "y \<in> set (S (enter w st))" for y
  proof (cases "y = w")
    case True
    then show ?thesis by auto
  next
    case False
    then have y: "y \<in> set (S st)" using that by simp
    then obtain g' where g': "g' \<in> set gs" "ix st g' \<le> ix st y" "reach g y g'"
      using gr(3) by blast
    have "ix (enter w st) g' \<le> ix (enter w st) y"
      using g'(1,2) same [of g'] same [OF y] gr(1) by auto
    then show ?thesis using g'(1,3) by auto
  qed
  show "ix (enter w st) w' \<noteq> 0"
    if "ix (enter w st) x \<noteq> 0" "x \<notin> set (w # gs)" "(x, w') \<in> edges g" for x w'
  proof -
    have "ix st x \<noteq> 0" "x \<notin> set gs" using that(1,2) by auto
    then have "ix st w' \<noteq> 0" using gr(4) that(3) by blast
    then show ?thesis using n(1) by (cases "w' = w") simp_all
  qed
qed

lemma inv_reach_enter:
  assumes "inv_num g st" "inv_stack st" "inv_gray g gs st" "inv_reach g st" "ix st w = 0"
    and call: "gs = [] \<or> (hd gs, w) \<in> edges g"
  shows "inv_reach g (enter w st)"
proof (rule inv_reachI)
  note n = inv_numD [OF assms(1)] and s = inv_stackD [OF assms(2)] and gr = inv_grayD [OF assms(3)]
    and r = inv_reachD [OF assms(4)]
  have w: "w \<notin> set (S st)" "w \<notin> emitted st"
    using white_not_on_stack [OF assms(2,5)] by auto
  have same: "ix (enter w st) x = ix st x" "ll (enter w st) x = ll st x" if "x \<in> set (S st)" for x
    using that w(1) by (cases "x = w"; simp)+
  have to_w: "reach g x w" if x: "x \<in> set (S st)" for x
  proof (cases gs)
    case Nil
    then show ?thesis using gray_empty_stack assms(3) x by fastforce
  next
    case (Cons v gs')
    then have e: "(v, w) \<in> edges g" using call by simp
    obtain g' where g': "g' \<in> set gs" "ix st g' \<le> ix st x" "reach g x g'"
      using gr(3) [OF x] by blast
    have "ix st g' \<le> ix st v"
      using gray_hd_max [of g v gs' st g'] assms(3) g'(1) Cons by simp
    moreover have "g' \<in> set (S st)" "v \<in> set (S st)"
      using gr(1) g'(1) Cons by auto
    ultimately have "reach g g' v" using r(1) by blast
    then show ?thesis using g'(3) e reach_trans reach_edge by blast
  qed
  show "reach g x y"
    if "x \<in> set (S (enter w st))" "y \<in> set (S (enter w st))" "ix (enter w st) x \<le> ix (enter w st) y"
    for x y
  proof (cases "y = w")
    case True
    then show ?thesis using that(1) to_w by (cases "x = w") auto
  next
    case False
    then have y: "y \<in> set (S st)" using that(2) by simp
    show ?thesis
    proof (cases "x = w")
      case True
      then show ?thesis using that(3) same(1) [OF y] n(2) [of y] by simp
    next
      case False
      then have x: "x \<in> set (S st)" using that(1) by simp
      then show ?thesis using r(1) [OF x y] that(3) same(1) [OF x] same(1) [OF y] by simp
    qed
  qed
  show "ll (enter w st) x \<le> ix (enter w st) x" if "x \<in> set (S (enter w st))" for x
    using that r(2) [of x] by (cases "x = w") auto
  show "\<exists>u\<in>set (S (enter w st)). ix (enter w st) u = ll (enter w st) x \<and> reach g x u"
    if "x \<in> set (S (enter w st))" for x
  proof (cases "x = w")
    case True
    then show ?thesis by auto
  next
    case False
    then have x: "x \<in> set (S st)" using that by simp
    then obtain u where u: "u \<in> set (S st)" "ix st u = ll st x" "reach g x u"
      using r(3) by blast
    then show ?thesis using same [OF u(1)] same [OF x] by auto
  qed
qed

lemma inv_sccs_cong: "sccs_list st' = sccs_list st \<Longrightarrow> inv_sccs g st' = inv_sccs g st"
  by (simp add: inv_sccs_def)

lemma Inv_enter:
  assumes "Inv g gs st" "w \<in> g_nodes g" "ix st w = 0" "gs = [] \<or> (hd gs, w) \<in> edges g"
  shows "Inv g (w # gs) (enter w st)"
  using assms inv_num_enter [of g st w] inv_stack_enter [of g st w] inv_gray_enter [of g st gs w]
    inv_reach_enter [of g st gs w] inv_sccs_cong [of "enter w st" st g]
  unfolding Inv_def by simp

lemma keeps_refl [simp]: "keeps S0 st st"
  by (simp add: keeps_def)

lemma keeps_trans: "keeps S0 a b \<Longrightarrow> keeps S0 b c \<Longrightarrow> keeps S0 a c"
  unfolding keeps_def using frame_trans by auto

lemma vis_invD:
  assumes "vis_inv g gs0 v S0 pend st"
  shows "Inv g (v # gs0) st" "v \<in> g_nodes g" "\<exists>ns. S st = ns @ v # S0"
    "\<And>w. (v, w) \<in> edges g \<Longrightarrow> w \<in> pend \<or> ix st w \<noteq> 0"
    "\<And>x y. x \<in> set (S st) \<Longrightarrow> x \<notin> set S0 \<Longrightarrow> y \<in> set S0 \<Longrightarrow> (x, y) \<in> edges g \<Longrightarrow>
             (x = v \<and> y \<in> pend) \<or> ll st v \<le> ix st y"
  using assms unfolding vis_inv_def by blast+

lemma vis_invI:
  assumes "Inv g (v # gs0) st" "v \<in> g_nodes g" "\<exists>ns. S st = ns @ v # S0"
    "\<And>w. (v, w) \<in> edges g \<Longrightarrow> w \<in> pend \<or> ix st w \<noteq> 0"
    "\<And>x y. x \<in> set (S st) \<Longrightarrow> x \<notin> set S0 \<Longrightarrow> y \<in> set S0 \<Longrightarrow> (x, y) \<in> edges g \<Longrightarrow>
             (x = v \<and> y \<in> pend) \<or> ll st v \<le> ix st y"
  shows "vis_inv g gs0 v S0 pend st"
  unfolding vis_inv_def using assms by blast

lemma InvD:
  assumes "Inv g gs st"
  shows "inv_num g st" "inv_stack st" "inv_gray g gs st" "inv_reach g st" "inv_sccs g st"
  using assms unfolding Inv_def by blast+

text \<open>Shrinking the set of pending successors.\<close>

lemma vis_inv_shrink:
  assumes v: "vis_inv g gs0 v S0 P st"
    and P: "\<And>w. w \<in> P \<Longrightarrow> w \<notin> P' \<Longrightarrow> (v, w) \<in> edges g \<Longrightarrow>
                ix st w \<noteq> 0 \<and> (w \<in> set S0 \<longrightarrow> ll st v \<le> ix st w)"
  shows "vis_inv g gs0 v S0 P' st"
proof (rule vis_invI)
  note d = vis_invD [OF v]
  show "Inv g (v # gs0) st" "v \<in> g_nodes g" "\<exists>ns. S st = ns @ v # S0" by (fact d)+
  show "w \<in> P' \<or> ix st w \<noteq> 0" if "(v, w) \<in> edges g" for w
    using d(4) [OF that] P [of w] that by blast
  show "(x = v \<and> y \<in> P') \<or> ll st v \<le> ix st y"
    if "x \<in> set (S st)" "x \<notin> set S0" "y \<in> set S0" "(x, y) \<in> edges g" for x y
    using d(5) [OF that] P [of y] that by blast
qed

lemma edges_nodes: "(x, y) \<in> edges g \<Longrightarrow> x \<in> g_nodes g \<and> y \<in> g_nodes g \<and> y \<in> succs g x"
  by (simp add: edges_def)

text \<open>A successor outside the graph is skipped.\<close>

lemma vis_inv_skip:
  assumes "vis_inv g gs0 v S0 (insert w P) st" "w \<notin> g_nodes g"
  shows "vis_inv g gs0 v S0 P st"
  using assms(1)
proof (rule vis_inv_shrink)
  fix w' assume "w' \<in> insert w P" "w' \<notin> P" "(v, w') \<in> edges g"
  then show "ix st w' \<noteq> 0 \<and> (w' \<in> set S0 \<longrightarrow> ll st v \<le> ix st w')"
    using assms(2) edges_nodes by blast
qed

text \<open>A successor that is visited and no longer on the stack.\<close>

lemma vis_inv_done:
  assumes "vis_inv g gs0 v S0 (insert w P) st" "ix st w \<noteq> 0" "\<not> os st w"
  shows "vis_inv g gs0 v S0 P st"
  using assms(1)
proof (rule vis_inv_shrink)
  note d = vis_invD [OF assms(1)]
  note s = inv_stackD [OF InvD(2) [OF d(1)]]
  obtain ns where ns: "S st = ns @ v # S0" using d(3) by blast
  have "w \<notin> set S0" using assms(3) s(2) [of w] ns by auto
  fix w' assume "w' \<in> insert w P" "w' \<notin> P" "(v, w') \<in> edges g"
  then show "ix st w' \<noteq> 0 \<and> (w' \<in> set S0 \<longrightarrow> ll st v \<le> ix st w')"
    using assms(2) \<open>w \<notin> set S0\<close> by blast
qed

lemma sorted_wrt_distinct: "sorted_wrt (\<lambda>a b. f b < (f a :: nat)) xs \<Longrightarrow> distinct xs"
  by (induction xs) auto

lemma stack_distinct: "inv_stack st \<Longrightarrow> distinct (S st)"
  using inv_stackD(1) sorted_wrt_distinct by blast

lemma stack_split:
  assumes "inv_stack st" "S st = ns @ v # S0"
  shows "v \<notin> set ns" "v \<notin> set S0" "set ns \<inter> set S0 = {}"
    "\<And>y. y \<in> set S0 \<Longrightarrow> ix st y < ix st v" "\<And>x. x \<in> set ns \<Longrightarrow> ix st v < ix st x"
proof -
  have d: "distinct (ns @ v # S0)" using stack_distinct [OF assms(1)] assms(2) by simp
  show "v \<notin> set ns" "v \<notin> set S0" "set ns \<inter> set S0 = {}" using d by auto
  have srt: "sorted_wrt (\<lambda>a b. ix st b < ix st a) (ns @ v # S0)"
    using inv_stackD(1) [OF assms(1)] assms(2) by simp
  show "ix st y < ix st v" if "y \<in> set S0" for y
    using srt that by (auto simp: sorted_wrt_append)
  show "ix st v < ix st x" if "x \<in> set ns" for x
    using srt that by (auto simp: sorted_wrt_append)
qed

lemma Inv_update_lowlink:
  assumes i: "Inv g gs st" and v: "v \<in> set (S st)"
    and just: "ll st w < ll st v \<Longrightarrow> \<exists>u\<in>set (S st). ix st u = ll st w \<and> reach g v u"
  shows "Inv g gs (update_lowlink v w st)"
proof -
  let ?st = "update_lowlink v w st"
  note r = inv_reachD [OF InvD(4) [OF i]]
  have "inv_reach g ?st"
  proof (rule inv_reachI)
    show "reach g x y" if "x \<in> set (S ?st)" "y \<in> set (S ?st)" "ix ?st x \<le> ix ?st y" for x y
      using that r(1) by simp
    show "ll ?st x \<le> ix ?st x" if "x \<in> set (S ?st)" for x
      using that r(2) [of x] by (cases "x = v") (simp_all add: min.coboundedI1)
    show "\<exists>u\<in>set (S ?st). ix ?st u = ll ?st x \<and> reach g x u" if "x \<in> set (S ?st)" for x
    proof (cases "x = v")
      case True
      show ?thesis
      proof (cases "ll st w < ll st v")
        case True
        then have "min (ll st v) (ll st w) = ll st w" by simp
        then show ?thesis using just [OF True] \<open>x = v\<close> by simp
      next
        case False
        then have "min (ll st v) (ll st w) = ll st v" by simp
        then show ?thesis using r(3) [OF v] \<open>x = v\<close> by simp
      qed
    next
      case False
      then show ?thesis using r(3) [of x] that by simp
    qed
  qed
  moreover have "inv_num g ?st" using InvD(1) [OF i] by (simp add: inv_num_def)
  moreover have "inv_stack ?st" using InvD(2) [OF i] by (simp add: inv_stack_def emitted_def)
  moreover have "inv_gray g gs ?st" using InvD(3) [OF i] by (simp add: inv_gray_def)
  moreover have "inv_sccs g ?st" using InvD(5) [OF i] by (simp add: inv_sccs_def)
  ultimately show ?thesis by (simp add: Inv_def)
qed

lemma vis_inv_update:
  assumes i: "Inv g (v # gs0) st" and v: "v \<in> g_nodes g" and st: "\<exists>ns. S st = ns @ v # S0"
    and v1: "\<And>w'. (v, w') \<in> edges g \<Longrightarrow> w' \<in> P \<or> ix st w' \<noteq> 0"
    and v2: "\<And>x y. x \<in> set (S st) \<Longrightarrow> x \<notin> set S0 \<Longrightarrow> y \<in> set S0 \<Longrightarrow> (x, y) \<in> edges g \<Longrightarrow>
               (x = v \<and> y \<in> P) \<or> ll st v \<le> ix st y \<or> ll st w \<le> ix st y"
    and just: "ll st w < ll st v \<Longrightarrow> \<exists>u\<in>set (S st). ix st u = ll st w \<and> reach g v u"
  shows "vis_inv g gs0 v S0 P (update_lowlink v w st) \<and> keeps S0 st (update_lowlink v w st)"
proof
  let ?st = "update_lowlink v w st"
  obtain ns where ns: "S st = ns @ v # S0" using st by blast
  have vS: "v \<in> set (S st)" using ns by simp
  note sp = stack_split [OF InvD(2) [OF i] ns]
  show "vis_inv g gs0 v S0 P ?st"
  proof (rule vis_invI)
    show "Inv g (v # gs0) ?st" using i vS just by (rule Inv_update_lowlink)
    show "v \<in> g_nodes g" by fact
    show "\<exists>ns. S ?st = ns @ v # S0" using st by simp
    show "w' \<in> P \<or> ix ?st w' \<noteq> 0" if "(v, w') \<in> edges g" for w'
      using v1 [OF that] by simp
    show "(x = v \<and> y \<in> P) \<or> ll ?st v \<le> ix ?st y"
      if "x \<in> set (S ?st)" "x \<notin> set S0" "y \<in> set S0" "(x, y) \<in> edges g" for x y
      using v2 [of x y] that by (auto simp: min_le_iff_disj)
  qed
  have "ll ?st x = ll st x" if "x \<in> set S0" for x
    using that sp(2) by (cases "x = v") simp_all
  then show "keeps S0 st ?st"
    by (simp add: keeps_def frame_def)
qed

lemma sc_postD:
  assumes "sc_post g gs w st st'"
  shows "Inv g gs st'" "keeps (S st) st st'" "ix st' w = next_index st" "\<exists>ns. S st' = ns @ S st"
    "w \<in> set (S st') \<or> ll st' w = ix st' w"
    "\<And>x y. x \<in> set (S st') \<Longrightarrow> x \<notin> set (S st) \<Longrightarrow> y \<in> set (S st) \<Longrightarrow> (x, y) \<in> edges g \<Longrightarrow>
             ll st' w \<le> ix st' y"
  using assms unfolding sc_post_def by blast+

lemma keepsD:
  assumes "keeps S0 st st'"
  shows "next_index st \<le> next_index st'" "\<And>x. ix st x \<noteq> 0 \<Longrightarrow> ix st' x = ix st x"
    "\<And>x. ix st x = 0 \<Longrightarrow> ix st' x \<noteq> 0 \<Longrightarrow> next_index st \<le> ix st' x"
    "\<And>x. x \<in> set S0 \<Longrightarrow> ll st' x = ll st x"
  using assms unfolding keeps_def frame_def by blast+

lemma keeps_subset: "keeps S1 st st' \<Longrightarrow> set S0 \<subseteq> set S1 \<Longrightarrow> keeps S0 st st'"
  unfolding keeps_def by blast

lemma on_stack_visited: "inv_stack st \<Longrightarrow> x \<in> set (S st) \<Longrightarrow> ix st x \<noteq> 0"
  using inv_stackD(3) by blast

text \<open>A successor that is on the stack.\<close>

lemma visit_onstack:
  assumes vi: "vis_inv g gs0 v S0 (insert w P) st"
    and w: "w \<in> succs g v" "w \<in> g_nodes g" "ix st w \<noteq> 0" "os st w"
  shows "vis_inv g gs0 v S0 P (update_lowlink v w st) \<and> keeps S0 st (update_lowlink v w st)"
proof (rule vis_inv_update)
  note d = vis_invD [OF vi]
  note s = inv_stackD [OF InvD(2) [OF d(1)]] and r = inv_reachD [OF InvD(4) [OF d(1)]]
  have wS: "w \<in> set (S st)" using w(4) s(2) by simp
  have e: "(v, w) \<in> edges g" using w(1,2) d(2) by (simp add: edges_def)
  show "Inv g (v # gs0) st" "v \<in> g_nodes g" "\<exists>ns. S st = ns @ v # S0" by (fact d)+
  show "w' \<in> P \<or> ix st w' \<noteq> 0" if "(v, w') \<in> edges g" for w'
    using d(4) [OF that] w(3) by blast
  show "(x = v \<and> y \<in> P) \<or> ll st v \<le> ix st y \<or> ll st w \<le> ix st y"
    if "x \<in> set (S st)" "x \<notin> set S0" "y \<in> set S0" "(x, y) \<in> edges g" for x y
    using d(5) [OF that] r(2) [OF wS] by blast
  show "\<exists>u\<in>set (S st). ix st u = ll st w \<and> reach g v u" if "ll st w < ll st v"
  proof -
    obtain u where "u \<in> set (S st)" "ix st u = ll st w" "reach g w u"
      using r(3) [OF wS] by blast
    then show ?thesis using reach_edge [OF e] reach_trans by blast
  qed
qed

text \<open>A successor that was not visited, after the recursive call.\<close>

lemma visit_after_call:
  assumes vi: "vis_inv g gs0 v S0 (insert w P) st"
    and e: "(v, w) \<in> edges g" and white: "ix st w = 0"
    and post: "sc_post g (v # gs0) w st st2"
  shows "vis_inv g gs0 v S0 P (update_lowlink v w st2) \<and> keeps S0 st (update_lowlink v w st2)"
proof -
  note d = vis_invD [OF vi] and p = sc_postD [OF post]
  note k = keepsD [OF p(2)]
  note n = inv_numD [OF InvD(1) [OF d(1)]]
  obtain ns where ns: "S st = ns @ v # S0" using d(3) by blast
  obtain ns2 where ns2: "S st2 = ns2 @ S st" using p(4) by blast
  have vS: "v \<in> set (S st)" and S0: "set S0 \<subseteq> set (S st)" using ns by auto
  have vis: "ix st x \<noteq> 0" if "x \<in> set (S st)" for x
    using on_stack_visited [OF InvD(2) [OF d(1)] that] .
  have wS0: "w \<notin> set S0" using white vis S0 by blast
  have "vis_inv g gs0 v S0 P (update_lowlink v w st2) \<and> keeps S0 st2 (update_lowlink v w st2)"
  proof (rule vis_inv_update)
    show "Inv g (v # gs0) st2" by (fact p(1))
    show "v \<in> g_nodes g" by (fact d(2))
    show "\<exists>ns. S st2 = ns @ v # S0" using ns ns2 by simp
    show "w' \<in> P \<or> ix st2 w' \<noteq> 0" if "(v, w') \<in> edges g" for w'
    proof (cases "w' = w")
      case True
      then show ?thesis using p(3) n(1) by simp
    next
      case False
      then show ?thesis using d(4) [OF that] k(2) [of w'] by auto
    qed
    show "(x = v \<and> y \<in> P) \<or> ll st2 v \<le> ix st2 y \<or> ll st2 w \<le> ix st2 y"
      if "x \<in> set (S st2)" "x \<notin> set S0" "y \<in> set S0" "(x, y) \<in> edges g" for x y
    proof (cases "x \<in> set (S st)")
      case True
      have y: "y \<noteq> w" "ix st2 y = ix st y" using that(3) wS0 S0 vis k(2) by auto
      have "ll st2 v = ll st v" using k(4) [OF vS] .
      then show ?thesis using d(5) [OF True that(2,3,4)] y by auto
    next
      case False
      then show ?thesis using p(6) [OF that(1) False _ that(4)] that(3) S0 by blast
    qed
    show "\<exists>u\<in>set (S st2). ix st2 u = ll st2 w \<and> reach g v u" if lt: "ll st2 w < ll st2 v"
    proof -
      have "ll st2 v = ll st v" using k(4) [OF vS] .
      moreover have "ll st v \<le> ix st v"
        using inv_reachD(2) [OF InvD(4) [OF d(1)] vS] .
      moreover have "ix st v < next_index st" using n(2) .
      ultimately have "ll st2 w \<noteq> ix st2 w" using lt p(3) by simp
      then have "w \<in> set (S st2)" using p(5) by blast
      then obtain u where "u \<in> set (S st2)" "ix st2 u = ll st2 w" "reach g w u"
        using inv_reachD(3) [OF InvD(4) [OF p(1)]] by blast
      then show ?thesis using reach_edge [OF e] reach_trans by blast
    qed
  qed
  moreover have "keeps S0 st st2" using p(2) S0 by (rule keeps_subset)
  ultimately show ?thesis using keeps_trans by blast
qed

lemma finish_nonroot:
  assumes vi: "vis_inv g gs0 v S0 {} st" and ne: "ll st v \<noteq> ix st v"
  shows "Inv g gs0 st"
proof -
  note d = vis_invD [OF vi]
  note gr = inv_grayD [OF InvD(3) [OF d(1)]] and r = inv_reachD [OF InvD(4) [OF d(1)]]
  obtain ns where ns: "S st = ns @ v # S0" using d(3) by blast
  have vS: "v \<in> set (S st)" using ns by simp
  have lt: "ll st v < ix st v" using r(2) [OF vS] ne by simp
  obtain u where u: "u \<in> set (S st)" "ix st u = ll st v" "reach g v u"
    using r(3) [OF vS] by blast
  obtain g2 where g2: "g2 \<in> set (v # gs0)" "ix st g2 \<le> ix st u" "reach g u g2"
    using gr(3) [OF u(1)] by blast
  have g2': "g2 \<in> set gs0" using g2(1,2) u(2) lt by auto
  have "inv_gray g gs0 st"
  proof (rule inv_grayI)
    show "set gs0 \<subseteq> set (S st)" using gr(1) by simp
    show "sorted_wrt (\<lambda>a b. ix st b < ix st a) gs0" using gr(2) by simp
    show "\<exists>g'\<in>set gs0. ix st g' \<le> ix st y \<and> reach g y g'" if y: "y \<in> set (S st)" for y
    proof -
      obtain g1 where g1: "g1 \<in> set (v # gs0)" "ix st g1 \<le> ix st y" "reach g y g1"
        using gr(3) [OF y] by blast
      show ?thesis
      proof (cases "g1 = v")
        case True
        have "ix st g2 \<le> ix st y" using g2(2) u(2) lt g1(2) True by simp
        moreover have "reach g y g2" using g1(3) True u(3) g2(3) reach_trans by blast
        ultimately show ?thesis using g2' by blast
      next
        case False
        then show ?thesis using g1 by auto
      qed
    qed
    show "ix st w \<noteq> 0" if "ix st x \<noteq> 0" "x \<notin> set gs0" "(x, w) \<in> edges g" for x w
    proof (cases "x = v")
      case True
      then show ?thesis using d(4) [of w] that(3) by simp
    next
      case False
      then show ?thesis using gr(4) [of x w] that by simp
    qed
  qed
  then show ?thesis using InvD [OF d(1)] by (simp add: Inv_def)
qed

lemma pop_component_block:
  assumes "v \<notin> set ns" "\<forall>x\<in>set (ns @ [v]). d x \<noteq> None"
  shows "pop_component v (ns @ v # S0) d scc =
     Inr (S0, (\<lambda>x. if x \<in> set ns \<union> {v} then map_option (\<lambda>e. e\<lparr>onstack := False\<rparr>) (d x) else d x),
          scc \<union> set ns \<union> {v})"
  using assms
proof (induction ns arbitrary: d scc)
  case Nil
  then obtain e where "d v = Some e" by auto
  then show ?case by (auto simp: fun_eq_iff)
next
  case (Cons a ns)
  then obtain e where e: "d a = Some e" by auto
  let ?d = "d(a \<mapsto> e\<lparr>onstack := False\<rparr>)"
  have av: "a \<noteq> v" "v \<notin> set ns" using Cons.prems(1) by auto
  have "\<forall>x\<in>set (ns @ [v]). ?d x \<noteq> None" using Cons.prems(2) by auto
  from Cons.IH [OF av(2) this, of "insert a scc"]
  have "pop_component v (ns @ v # S0) ?d (insert a scc) =
     Inr (S0, (\<lambda>x. if x \<in> set ns \<union> {v} then map_option (\<lambda>e. e\<lparr>onstack := False\<rparr>) (?d x) else ?d x),
          insert a scc \<union> set ns \<union> {v})" .
  moreover have "(\<lambda>x. if x \<in> set ns \<union> {v} then map_option (\<lambda>e. e\<lparr>onstack := False\<rparr>) (?d x) else ?d x) =
     (\<lambda>x. if x \<in> set (a # ns) \<union> {v} then map_option (\<lambda>e. e\<lparr>onstack := False\<rparr>) (d x) else d x)"
    using e by (auto simp: fun_eq_iff)
  moreover have "insert a scc \<union> set ns \<union> {v} = scc \<union> set (a # ns) \<union> {v}" by auto
  ultimately show ?case using e av(1) by (simp add: Let_def)
qed

lemma on_stack_has_data: "os st x \<Longrightarrow> data st x \<noteq> None"
  by (cases "data st x") (auto simp: os_def get_data_def zero_vdata_def)

text \<open>The state after the component of the root \<open>v\<close> has been popped.\<close>

lemma finish_root_state:
  assumes s: "inv_stack st" and ns: "S st = ns @ v # S0" and root: "ll st v = ix st v"
  shows "\<exists>st'. finish v st = Inr st' \<and> S st' = S0 \<and> next_index st' = next_index st \<and>
           sccs_list st' = sccs_list st @ [set ns \<union> {v}] \<and> ix st' = ix st \<and> ll st' = ll st \<and>
           (\<forall>x. os st' x = (x \<in> set S0))"
proof -
  note sp = stack_split [OF s ns]
  have dat: "\<forall>x\<in>set (ns @ [v]). data st x \<noteq> None"
    using inv_stackD(2) [OF s] ns on_stack_has_data by auto
  let ?d = "\<lambda>x. if x \<in> set ns \<union> {v} then map_option (\<lambda>e. e\<lparr>onstack := False\<rparr>) (data st x) else data st x"
  let ?st = "st\<lparr>S := S0, data := ?d, sccs_list := sccs_list st @ [set ns \<union> {v}]\<rparr>"
  have pop: "pop_component v (S st) (data st) {} = Inr (S0, ?d, set ns \<union> {v})"
    using pop_component_block [OF sp(1) dat, of S0 "{}"] ns by simp
  have fin: "finish v st = Inr ?st"
    using root pop by (simp add: finish_def ll_def ix_def)
  have gd: "get_data ?st x = (if x \<in> set ns \<union> {v} then (get_data st x)\<lparr>onstack := False\<rparr> else get_data st x)" for x
    using dat by (auto simp: get_data_def split: option.splits)
  have "ix ?st x = ix st x" "ll ?st x = ll st x" for x
    unfolding ix_def ll_def gd by simp_all
  then have "ix ?st = ix st" "ll ?st = ll st"
    by (simp_all add: fun_eq_iff)
  moreover have "os ?st x = (x \<in> set S0)" for x
    unfolding os_def gd
    using inv_stackD(2) [OF s, of x] ns sp(1,2,3) by (auto simp: os_def)
  ultimately show ?thesis using fin by auto
qed

lemma topo_closed:
  assumes "topo g L" "x \<in> \<Union> (set L)" "(x, w) \<in> edges g"
  shows "w \<in> \<Union> (set L)"
proof -
  obtain i where i: "i < length L" "x \<in> L ! i"
    using assms(2) by (auto simp: in_set_conv_nth)
  then have "w \<in> \<Union> (set (take (Suc i) L))"
    using assms(1,3) unfolding topo_def by blast
  then show ?thesis using set_take_subset [of "Suc i" L] by blast
qed

lemma topo_append:
  assumes "topo g L" "\<And>x w. x \<in> B \<Longrightarrow> (x, w) \<in> edges g \<Longrightarrow> w \<in> B \<union> \<Union> (set L)"
  shows "topo g (L @ [B])"
  unfolding topo_def
proof (intro allI impI ballI)
  fix i x w
  assume i: "i < length (L @ [B])" and x: "x \<in> (L @ [B]) ! i" and e: "(x, w) \<in> edges g"
  show "w \<in> \<Union> (set (take (Suc i) (L @ [B])))"
  proof (cases "i < length L")
    case True
    then have "x \<in> L ! i" using x by (simp add: nth_append)
    then have "w \<in> \<Union> (set (take (Suc i) L))"
      using assms(1) True e unfolding topo_def by blast
    then show ?thesis using True by simp
  next
    case False
    then have "i = length L" using i by simp
    then show ?thesis using x e assms(2) [of x w] by auto
  qed
qed

lemma disjoint_append:
  assumes "disjoint_list L" "B \<inter> \<Union> (set L) = {}"
  shows "disjoint_list (L @ [B])"
  unfolding disjoint_list_def
proof (intro allI impI)
  fix i j
  assume i: "i < length (L @ [B])" and j: "j < length (L @ [B])" and ne: "i \<noteq> j"
  have old: "L ! a \<inter> B = {}" if "a < length L" for a
    using assms(2) that nth_mem [OF that] by blast
  show "(L @ [B]) ! i \<inter> (L @ [B]) ! j = {}"
  proof (cases "i < length L"; cases "j < length L")
    assume "i < length L" "j < length L"
    then show ?thesis using assms(1) ne by (simp add: nth_append disjoint_list_def)
  next
    assume a: "i < length L" "\<not> j < length L"
    then have "j = length L" using j by simp
    then show ?thesis using old [OF a(1)] a(1) by (simp add: nth_append)
  next
    assume a: "\<not> i < length L" "j < length L"
    then have "i = length L" using i by simp
    then show ?thesis using old [OF a(2)] a(2) by (auto simp: nth_append)
  next
    assume "\<not> i < length L" "\<not> j < length L"
    then show ?thesis using i j ne by simp
  qed
qed

lemma reach_closed:
  assumes "reach g x y" "x \<in> A" "\<And>a b. a \<in> A \<Longrightarrow> (a, b) \<in> edges g \<Longrightarrow> b \<in> A"
  shows "y \<in> A"
proof -
  have "(x, y) \<in> (edges g)\<^sup>*" using assms(1) by (simp add: reach_def)
  then show ?thesis
    by (induction rule: rtrancl_induct) (use assms(2,3) in auto)
qed

text \<open>The nodes above a root on the stack, with the root, are a component.\<close>

lemma root_block_scc:
  assumes vi: "vis_inv g gs0 v S0 {} st" and ns: "S st = ns @ v # S0" and root: "ll st v = ix st v"
  shows "is_scc g (set ns \<union> {v})"
    and "\<And>x w. x \<in> set ns \<union> {v} \<Longrightarrow> (x, w) \<in> edges g \<Longrightarrow> w \<in> (set ns \<union> {v}) \<union> emitted st"
proof -
  let ?B = "set ns \<union> {v}"
  note d = vis_invD [OF vi]
  note n = inv_numD [OF InvD(1) [OF d(1)]] and s = inv_stackD [OF InvD(2) [OF d(1)]]
    and gr = inv_grayD [OF InvD(3) [OF d(1)]] and r = inv_reachD [OF InvD(4) [OF d(1)]]
  note sp = stack_split [OF InvD(2) [OF d(1)] ns]
  have topo: "topo g (sccs_list st)" using InvD(5) [OF d(1)] by (simp add: inv_sccs_def)
  have BS: "?B \<subseteq> set (S st)" using ns by auto
  have B0: "x \<notin> set S0" if "x \<in> ?B" for x using that sp(1,2,3) by auto
  have gray: "x \<notin> set gs0" if x: "x \<in> set ns" for x
  proof
    assume "x \<in> set gs0"
    then have "ix st x \<le> ix st v" using gray_hd_max [OF InvD(3) [OF d(1)], of x] by simp
    then show False using sp(5) [OF x] by simp
  qed
  show closed: "w \<in> ?B \<union> emitted st" if x: "x \<in> ?B" and e: "(x, w) \<in> edges g" for x w
  proof -
    have xS: "x \<in> set (S st)" using x BS by blast
    have "ix st w \<noteq> 0"
    proof (cases "x = v")
      case True
      then show ?thesis using d(4) [of w] e by simp
    next
      case False
      then have "x \<notin> set (v # gs0)" using x gray by auto
      then show ?thesis using gr(4) [OF on_stack_visited [OF InvD(2) [OF d(1)] xS] _ e] by blast
    qed
    then have "w \<in> set (S st) \<or> w \<in> emitted st" using s(3) by blast
    moreover have "w \<notin> set S0"
    proof
      assume w: "w \<in> set S0"
      then have "ll st v \<le> ix st w" using d(5) [OF xS B0 [OF x] w e] by simp
      then show False using sp(4) [OF w] root by simp
    qed
    ultimately show ?thesis using ns by auto
  qed
  have em_closed: "b \<in> emitted st" if "a \<in> emitted st" "(a, b) \<in> edges g" for a b
    using topo_closed [OF topo] that unfolding emitted_def by blast
  have all_closed: "b \<in> ?B \<union> emitted st" if "a \<in> ?B \<union> emitted st" "(a, b) \<in> edges g" for a b
    using that closed em_closed by blast
  have from_v: "reach g v x" if "x \<in> ?B" for x
  proof -
    have "ix st v \<le> ix st x" using that sp(5) [of x] by auto
    then show ?thesis using r(1) [of v x] that BS ns by auto
  qed
  have to_v: "reach g x v" if x: "x \<in> ?B" for x
  proof -
    have xS: "x \<in> set (S st)" using x BS by blast
    obtain g1 where g1: "g1 \<in> set (v # gs0)" "ix st g1 \<le> ix st x" "reach g x g1"
      using gr(3) [OF xS] by blast
    show ?thesis
    proof (cases "g1 = v")
      case True
      then show ?thesis using g1(3) by simp
    next
      case False
      then have g0: "g1 \<in> set gs0" using g1(1) by simp
      have "ix st g1 \<le> ix st v" using gray_hd_max [OF InvD(3) [OF d(1)] g1(1)] .
      then have "ix st g1 < ix st v" using n(3) [of g1 v] False
          on_stack_visited [OF InvD(2) [OF d(1)], of g1] gr(1) g0
        by (metis le_neq_implies_less list.set_intros(2) subsetD)
      moreover have "g1 \<in> set (S st)" using gr(1) g0 by auto
      ultimately have "g1 \<in> set S0" using ns sp(5) [of g1] by auto
      moreover have "g1 \<in> ?B \<union> emitted st"
        using reach_closed [OF g1(3), of "?B \<union> emitted st"] x all_closed by blast
      ultimately show ?thesis using B0 [of g1] s(4) [of g1] \<open>g1 \<in> set (S st)\<close> by blast
    qed
  qed
  have vB: "v \<in> ?B" by simp
  have v_em: "v \<notin> emitted st" using s(4) [of v] ns by simp
  have maximal: "y \<in> ?B" if "reach g v y" "reach g y v" for y
  proof -
    have "y \<in> ?B \<union> emitted st"
      using reach_closed [OF that(1), of "?B \<union> emitted st"] all_closed by blast
    moreover have "y \<notin> emitted st"
      using reach_closed [OF that(2), of "emitted st"] em_closed v_em by blast
    ultimately show ?thesis by blast
  qed
  have "?B = {y. reach g x y \<and> reach g y x}" if x: "x \<in> ?B" for x
  proof (intro set_eqI iffI)
    fix y assume "y \<in> ?B"
    then have "reach g x y" "reach g y x"
      using to_v [OF x] from_v [of y] to_v [of y] from_v [OF x] reach_trans by blast+
    then show "y \<in> {y. reach g x y \<and> reach g y x}" by simp
  next
    fix y assume "y \<in> {y. reach g x y \<and> reach g y x}"
    then have "reach g v y" "reach g y v"
      using to_v [OF x] from_v [OF x] reach_trans by blast+
    then show "y \<in> ?B" by (rule maximal)
  qed
  moreover have "?B \<subseteq> g_nodes g"
    using BS on_stack_visited [OF InvD(2) [OF d(1)]] n(4) by blast
  ultimately show "is_scc g ?B"
    unfolding is_scc_def by blast
qed

lemma sorted_wrt_suffix: "sorted_wrt P (xs @ ys) \<Longrightarrow> sorted_wrt P ys"
  by (simp add: sorted_wrt_append)

lemma finish_root:
  assumes vi: "vis_inv g gs0 v S0 {} st" and ns: "S st = ns @ v # S0" and root: "ll st v = ix st v"
    and st': "S st' = S0" "next_index st' = next_index st"
      "sccs_list st' = sccs_list st @ [set ns \<union> {v}]" "ix st' = ix st" "ll st' = ll st"
      "\<And>x. os st' x = (x \<in> set S0)"
  shows "Inv g gs0 st'"
proof -
  let ?B = "set ns \<union> {v}"
  note d = vis_invD [OF vi]
  note n = inv_numD [OF InvD(1) [OF d(1)]] and s = inv_stackD [OF InvD(2) [OF d(1)]]
    and gr = inv_grayD [OF InvD(3) [OF d(1)]] and r = inv_reachD [OF InvD(4) [OF d(1)]]
  note sp = stack_split [OF InvD(2) [OF d(1)] ns]
  note scc = root_block_scc [OF vi ns root]
  have em: "emitted st' = emitted st \<union> ?B"
    by (auto simp: emitted_def st'(3))
  have inS0: "x \<in> set S0" if "x \<in> set (S st)" "ix st x < ix st v" for x
    using that ns sp(5) [of x] by auto
  have "whites g st' = whites g st" by (simp add: whites_def st')
  then have "inv_num g st'"
    using InvD(1) [OF d(1)] by (simp add: inv_num_def st')
  moreover have "inv_stack st'"
  proof (rule inv_stackI)
    show "sorted_wrt (\<lambda>a b. ix st' b < ix st' a) (S st')"
      using s(1) ns sorted_wrt_suffix [of _ "ns @ [v]" S0] by (simp add: st')
    show "os st' x = (x \<in> set (S st'))" for x by (simp add: st')
    show "(ix st' x \<noteq> 0) = (x \<in> set (S st') \<or> x \<in> emitted st')" for x
      using s(3) [of x] ns by (auto simp: st' em)
    show "x \<notin> emitted st'" if "x \<in> set (S st')" for x
      using that s(4) [of x] ns sp(2,3) by (auto simp: st' em)
  qed
  moreover have "inv_gray g gs0 st'"
  proof (rule inv_grayI)
    have "g' \<in> set S0" if g': "g' \<in> set gs0" for g'
    proof -
      have "ix st g' < ix st v" using gr(2) g' by auto
      moreover have "g' \<in> set (S st)" using gr(1) g' by auto
      ultimately show ?thesis by (rule inS0 [rotated])
    qed
    then show "set gs0 \<subseteq> set (S st')" by (auto simp: st')
    show "sorted_wrt (\<lambda>a b. ix st' b < ix st' a) gs0" using gr(2) by (simp add: st')
    show "\<exists>g'\<in>set gs0. ix st' g' \<le> ix st' y \<and> reach g y g'" if y: "y \<in> set (S st')" for y
    proof -
      have y0: "y \<in> set S0" using y by (simp add: st')
      then have "y \<in> set (S st)" using ns by simp
      then obtain g1 where g1: "g1 \<in> set (v # gs0)" "ix st g1 \<le> ix st y" "reach g y g1"
        using gr(3) by blast
      have "g1 \<noteq> v" using g1(2) sp(4) [OF y0] by auto
      then show ?thesis using g1 by (auto simp: st')
    qed
    show "ix st' w \<noteq> 0" if "ix st' x \<noteq> 0" "x \<notin> set gs0" "(x, w) \<in> edges g" for x w
    proof (cases "x = v")
      case True
      then show ?thesis using d(4) [of w] that(3) by (simp add: st')
    next
      case False
      then show ?thesis using gr(4) [of x w] that by (simp add: st')
    qed
  qed
  moreover have "inv_reach g st'"
  proof (rule inv_reachI)
    show "reach g x y" if "x \<in> set (S st')" "y \<in> set (S st')" "ix st' x \<le> ix st' y" for x y
      using r(1) [of x y] that ns by (simp add: st')
    show "ll st' x \<le> ix st' x" if "x \<in> set (S st')" for x
      using r(2) [of x] that ns by (simp add: st')
    show "\<exists>u\<in>set (S st'). ix st' u = ll st' x \<and> reach g x u" if x: "x \<in> set (S st')" for x
    proof -
      have x0: "x \<in> set S0" using x by (simp add: st')
      then have xS: "x \<in> set (S st)" using ns by simp
      obtain u where u: "u \<in> set (S st)" "ix st u = ll st x" "reach g x u"
        using r(3) [OF xS] by blast
      have "ix st u < ix st v" using u(2) r(2) [OF xS] sp(4) [OF x0] by simp
      then have "u \<in> set S0" using inS0 [OF u(1)] by simp
      then show ?thesis using u by (auto simp: st')
    qed
  qed
  moreover have "inv_sccs g st'"
  proof -
    have old: "\<forall>C\<in>set (sccs_list st). is_scc g C" "topo g (sccs_list st)" "disjoint_list (sccs_list st)"
      using InvD(5) [OF d(1)] by (simp_all add: inv_sccs_def)
    have "topo g (sccs_list st @ [?B])"
    proof (rule topo_append [OF old(2)])
      fix x w assume "x \<in> ?B" "(x, w) \<in> edges g"
      then have "w \<in> ?B \<union> emitted st" by (rule scc(2))
      then show "w \<in> ?B \<union> \<Union> (set (sccs_list st))"
        unfolding emitted_def .
    qed
    moreover have "x \<notin> \<Union> (set (sccs_list st))" if "x \<in> ?B" for x
    proof -
      have "x \<in> set (S st)" using that ns by auto
      then have "x \<notin> emitted st" by (rule s(4))
      then show ?thesis unfolding emitted_def .
    qed
    then have "?B \<inter> \<Union> (set (sccs_list st)) = {}" by blast
    with old(3) have "disjoint_list (sccs_list st @ [?B])"
      by (rule disjoint_append)
    moreover have "\<forall>C\<in>set (sccs_list st @ [?B]). is_scc g C"
      using old(1) scc(1) by simp
    ultimately show ?thesis unfolding inv_sccs_def st'(3) by blast
  qed
  ultimately show ?thesis by (simp add: Inv_def)
qed

lemma whites_mono:
  assumes "keeps S0 st st'" "finite (g_nodes g)"
  shows "card (whites g st') \<le> card (whites g st)"
proof (rule card_mono)
  show "finite (whites g st)" using assms(2) by (simp add: whites_def)
  show "whites g st' \<subseteq> whites g st"
  proof
    fix x assume x: "x \<in> whites g st'"
    then have "ix st x = 0" using keepsD(2) [OF assms(1), of x] by (cases "ix st x = 0") (simp_all add: whites_def)
    then show "x \<in> whites g st" using x by (simp add: whites_def)
  qed
qed

lemma whites_enter:
  assumes "inv_num g st" "v \<in> g_nodes g" "ix st v = 0" "card (whites g st) \<le> Suc n"
  shows "card (whites g (enter v st)) \<le> n"
  using enter_no_wrap(2) [OF assms(1,2,3)] assms(4) by simp

lemma vis_inv_enter:
  assumes i: "Inv g gs st" and v: "v \<in> g_nodes g" "ix st v = 0" and call: "gs = [] \<or> (hd gs, v) \<in> edges g"
  shows "vis_inv g gs v (S st) (succs g v) (enter v st)" and "keeps (S st) st (enter v st)"
    and "ix (enter v st) v = next_index st"
proof -
  note n = inv_numD [OF InvD(1) [OF i]]
  note nw = enter_no_wrap [OF InvD(1) [OF i] v]
  have vS: "v \<notin> set (S st)" using white_not_on_stack [OF InvD(2) [OF i] v(2)] by simp
  show "vis_inv g gs v (S st) (succs g v) (enter v st)"
  proof (rule vis_invI)
    show "Inv g (v # gs) (enter v st)" using i v call by (rule Inv_enter)
    show "v \<in> g_nodes g" by fact
    show "\<exists>ns. S (enter v st) = ns @ v # S st" by simp
    show "w \<in> succs g v \<or> ix (enter v st) w \<noteq> 0" if "(v, w) \<in> edges g" for w
      using that by (simp add: edges_def)
    show "(x = v \<and> y \<in> succs g v) \<or> ll (enter v st) v \<le> ix (enter v st) y"
      if "x \<in> set (S (enter v st))" "x \<notin> set (S st)" "y \<in> set (S st)" "(x, y) \<in> edges g" for x y
      using that by (auto simp: edges_def)
  qed
  have "ix (enter v st) x = ix st x" if "ix st x \<noteq> 0" for x
    using that v(2) by (cases "x = v") simp_all
  moreover have "next_index st \<le> ix (enter v st) x" if "ix st x = 0" "ix (enter v st) x \<noteq> 0" for x
    using that by (cases "x = v") simp_all
  moreover have "ll (enter v st) x = ll st x" if "x \<in> set (S st)" for x
    using that vS by (cases "x = v") simp_all
  ultimately show "keeps (S st) st (enter v st)"
    using nw(1) by (simp add: keeps_def frame_def)
  show "ix (enter v st) v = next_index st" by simp
qed

text \<open>The end of \<open>strongconnect\<close>, from the state after the two loops.\<close>

lemma finish_post:
  assumes i: "Inv g gs st" and vi: "vis_inv g gs v (S st) {} st3" and k: "keeps (S st) st st3"
    and iv: "ix st3 v = next_index st"
  shows "\<exists>st'. finish v st3 = Inr st' \<and> sc_post g gs v st st'"
proof (cases "ll st3 v = ix st3 v")
  case True
  note d = vis_invD [OF vi]
  obtain ns where ns: "S st3 = ns @ v # S st" using d(3) by blast
  obtain st' where st': "finish v st3 = Inr st'" "S st' = S st" "next_index st' = next_index st3"
      "sccs_list st' = sccs_list st3 @ [set ns \<union> {v}]" "ix st' = ix st3" "ll st' = ll st3"
      "\<And>x. os st' x = (x \<in> set (S st))"
    using finish_root_state [OF InvD(2) [OF d(1)] ns True] by blast
  have "Inv g gs st'" using vi ns True st'(2-7) by (rule finish_root)
  moreover have "keeps (S st) st st'"
    using k by (simp add: keeps_def frame_def st')
  ultimately have "sc_post g gs v st st'"
    using iv True by (simp add: sc_post_def st')
  then show ?thesis using st'(1) by blast
next
  case False
  note d = vis_invD [OF vi]
  obtain ns where ns: "S st3 = ns @ v # S st" using d(3) by blast
  have "Inv g gs st3" using vi False by (rule finish_nonroot)
  moreover have "\<exists>ns. S st3 = ns @ S st" using ns by (metis append.assoc append_Cons append_Nil)
  moreover have "v \<in> set (S st3)" using ns by simp
  moreover have "ll st3 v \<le> ix st3 y"
    if "x \<in> set (S st3)" "x \<notin> set (S st)" "y \<in> set (S st)" "(x, y) \<in> edges g" for x y
    using d(5) [OF that] by simp
  ultimately have "sc_post g gs v st st3"
    using k iv unfolding sc_post_def by blast
  then show ?thesis using False by (simp add: finish_def ll_def ix_def)
qed

lemma vis_inv_ensure [simp]: "vis_inv g gs0 v S0 P (ensure_data w st) = vis_inv g gs0 v S0 P st"
  by (simp add: vis_inv_def)

lemma keeps_ensure [simp]:
  "keeps S0 (ensure_data w st) st' = keeps S0 st st'" "keeps S0 st (ensure_data w st') = keeps S0 st st'"
  by (simp_all add: keeps_def)

lemma sc_zero: "sc_spec 0 g v st"
  unfolding sc_spec_def
proof (intro allI impI)
  fix gs
  assume i: "Inv g gs st" and v: "v \<in> g_nodes g" "ix st v = 0" and c: "card (whites g st) \<le> 0"
  have "finite (whites g st)" using inv_numD(5) [OF InvD(1) [OF i]] by (simp add: whites_def)
  then have "v \<in> whites g st" "whites g st = {}" using v c by (simp_all add: whites_def)
  then show "\<exists>st'. strongconnect 0 g v st = Some (Inr st') \<and> sc_post g gs v st st'" by simp
qed

lemma sc_step:
  assumes IH1: "visit_spec n g v (g_futures g v) (enter v st)"
    and IH2: "\<And>b. visit n g v (g_futures g v) (enter v st) = Some (Inr b) \<Longrightarrow>
                visit_spec n g v (g_referrers g v) b"
  shows "sc_spec (Suc n) g v st"
  unfolding sc_spec_def
proof (intro allI impI)
  fix gs
  assume i: "Inv g gs st" and v: "v \<in> g_nodes g" "ix st v = 0"
    and call: "gs = [] \<or> (hd gs, v) \<in> edges g"
    and c: "card (whites g st) \<le> Suc n"
  let ?st1 = "enter v st"
  have fin: "finite (g_nodes g)" using inv_numD(5) [OF InvD(1) [OF i]] .
  note e = vis_inv_enter [OF i v call]
  have pos: "0 < next_index st" using inv_numD(1) [OF InvD(1) [OF i]] .
  have c1: "card (whites g ?st1) \<le> n" using InvD(1) [OF i] v c by (rule whites_enter)
  have v1: "vis_inv g gs v (S st) (set (g_futures g v) \<union> set (g_referrers g v)) ?st1"
    using e(1) by (simp add: succs_def)
  obtain st2 where st2: "visit n g v (g_futures g v) ?st1 = Some (Inr st2)"
      "vis_inv g gs v (S st) (set (g_referrers g v)) st2" "keeps (S st) ?st1 st2"
    using IH1 v1 c1 unfolding visit_spec_def succs_def by blast
  have c2: "card (whites g st2) \<le> n" using whites_mono [OF st2(3) fin] c1 by simp
  have v2: "vis_inv g gs v (S st) (set (g_referrers g v) \<union> {}) st2" using st2(2) by simp
  obtain st3 where st3: "visit n g v (g_referrers g v) st2 = Some (Inr st3)"
      "vis_inv g gs v (S st) {} st3" "keeps (S st) st2 st3"
    using IH2 [OF st2(1)] v2 c2 unfolding visit_spec_def succs_def by blast
  have k: "keeps (S st) st st3" using e(2) st2(3) st3(3) keeps_trans by blast
  have "ix ?st1 v \<noteq> 0" using e(3) pos by simp
  then have "ix st2 v = ix ?st1 v" using keepsD(2) [OF st2(3)] by blast
  then have iv: "ix st3 v = next_index st" using keepsD(2) [OF st3(3), of v] e(3) pos by simp
  obtain st' where "finish v st3 = Inr st'" "sc_post g gs v st st'"
    using finish_post [OF i st3(2) k iv] by blast
  then show "\<exists>st'. strongconnect (Suc n) g v st = Some (Inr st') \<and> sc_post g gs v st st'"
    using st2(1) st3(1) by simp
qed

lemma visit_nil: "visit_spec n g v [] st"
  unfolding visit_spec_def by simp

lemma visit_step:
  assumes IHa: "w \<notin> g_nodes g \<Longrightarrow> visit_spec n g v ws st"
    and IHb: "\<lbrakk>w \<in> g_nodes g; ix st w = 0\<rbrakk> \<Longrightarrow> sc_spec n g w (ensure_data w st)"
    and IHc: "\<And>b. \<lbrakk>w \<in> g_nodes g; ix st w = 0; strongconnect n g w (ensure_data w st) = Some (Inr b)\<rbrakk>
               \<Longrightarrow> visit_spec n g v ws (update_lowlink v w b)"
    and IHd: "\<lbrakk>w \<in> g_nodes g; ix st w \<noteq> 0; os st w\<rbrakk>
               \<Longrightarrow> visit_spec n g v ws (update_lowlink v w (ensure_data w st))"
    and IHe: "\<lbrakk>w \<in> g_nodes g; ix st w \<noteq> 0; \<not> os st w\<rbrakk> \<Longrightarrow> visit_spec n g v ws (ensure_data w st)"
  shows "visit_spec n g v (w # ws) st"
  unfolding visit_spec_def
proof (intro allI impI)
  fix gs0 S0 pend
  assume vi0: "vis_inv g gs0 v S0 (set (w # ws) \<union> pend) st" and sub: "set (w # ws) \<subseteq> succs g v"
    and c: "card (whites g st) \<le> n"
  let ?P = "set ws \<union> pend" and ?x = "ensure_data w st"
  have vi: "vis_inv g gs0 v S0 (insert w ?P) st" using vi0 by simp
  have fin: "finite (g_nodes g)" using inv_numD(5) [OF InvD(1) [OF vis_invD(1) [OF vi]]] .
  have sub': "set ws \<subseteq> succs g v" and ws: "w \<in> succs g v" using sub by auto
  note d = vis_invD [OF vi]
  show "\<exists>st'. visit n g v (w # ws) st = Some (Inr st') \<and> vis_inv g gs0 v S0 pend st' \<and> keeps S0 st st'"
  proof (cases "w \<in> g_nodes g")
    case False
    have "vis_inv g gs0 v S0 ?P st" using vi False by (rule vis_inv_skip)
    then show ?thesis
      using IHa [OF False] sub' c False unfolding visit_spec_def by simp
  next
    case True
    have e: "(v, w) \<in> edges g" using True ws d(2) by (simp add: edges_def)
    show ?thesis
    proof (cases "ix st w = 0")
      case white: True
      have "\<exists>st2. strongconnect n g w ?x = Some (Inr st2) \<and> sc_post g (v # gs0) w ?x st2"
        using IHb [OF True white] d(1) True white e c unfolding sc_spec_def by simp
      then obtain st2 where st2: "strongconnect n g w ?x = Some (Inr st2)" "sc_post g (v # gs0) w ?x st2"
        by blast
      have vx: "vis_inv g gs0 v S0 (insert w ?P) ?x" using vi by simp
      have wx: "ix ?x w = 0" using white by simp
      let ?u = "update_lowlink v w st2"
      have u: "vis_inv g gs0 v S0 ?P ?u" "keeps S0 ?x ?u"
        using visit_after_call [OF vx e wx st2(2)] by blast+
      have ku: "keeps S0 st ?u" using u(2) by simp
      have "card (whites g ?u) \<le> n" using whites_mono [OF ku fin] c by simp
      then obtain st' where st': "visit n g v ws ?u = Some (Inr st')" "vis_inv g gs0 v S0 pend st'"
          "keeps S0 ?u st'"
        using IHc [OF True white st2(1)] u(1) sub' unfolding visit_spec_def by blast
      have "visit n g v (w # ws) st = Some (Inr st')"
        using True white st2(1) st'(1) by (simp add: ix_def Let_def)
      then show ?thesis using st'(2,3) ku keeps_trans by blast
    next
      case visited: False
      show ?thesis
      proof (cases "os st w")
        case True
        let ?u = "update_lowlink v w ?x"
        have vx: "vis_inv g gs0 v S0 (insert w ?P) ?x" using vi by simp
        have u: "vis_inv g gs0 v S0 ?P ?u" "keeps S0 ?x ?u"
          using visit_onstack [OF vx ws \<open>w \<in> g_nodes g\<close>] visited True by simp_all
        have ku: "keeps S0 st ?u" using u(2) by simp
        have "card (whites g ?u) \<le> n" using whites_mono [OF ku fin] c by simp
        then obtain st' where st': "visit n g v ws ?u = Some (Inr st')" "vis_inv g gs0 v S0 pend st'"
            "keeps S0 ?u st'"
          using IHd [OF \<open>w \<in> g_nodes g\<close> visited True] u(1) sub' unfolding visit_spec_def by blast
        have "visit n g v (w # ws) st = Some (Inr st')"
          using \<open>w \<in> g_nodes g\<close> visited True st'(1) by (simp add: ix_def os_def Let_def)
        then show ?thesis using st'(2,3) ku keeps_trans by blast
      next
        case False
        have "vis_inv g gs0 v S0 ?P st" using vi visited False by (rule vis_inv_done)
        then have vx: "vis_inv g gs0 v S0 ?P ?x" by simp
        have "card (whites g ?x) \<le> n" using c by simp
        then obtain st' where st': "visit n g v ws ?x = Some (Inr st')" "vis_inv g gs0 v S0 pend st'"
            "keeps S0 ?x st'"
          using IHe [OF \<open>w \<in> g_nodes g\<close> visited False] vx sub' unfolding visit_spec_def by blast
        have "visit n g v (w # ws) st = Some (Inr st')"
          using \<open>w \<in> g_nodes g\<close> visited False st'(1) by (simp add: ix_def os_def Let_def)
        then show ?thesis using st'(2,3) by simp
      qed
    qed
  qed
qed

lemma strongconnect_visit_spec:
  "sc_spec n g w st" "visit_spec m g v ws st'"
proof (induction n g w st and m g v ws st' rule: strongconnect_visit.induct)
  case (1 g v st)
  show ?case by (rule sc_zero)
next
  case (2 n g v st)
  show ?case by (rule sc_step) (use 2 in blast)+
next
  case (3 n g v st)
  show ?case by (rule visit_nil)
next
  case (4 n g v w ws st)
  show ?case
  proof (rule visit_step)
    show "visit_spec n g v ws st" if "w \<notin> g_nodes g" using 4(1) that .
    show "sc_spec n g w (ensure_data w st)" if "w \<in> g_nodes g" "ix st w = 0"
      using 4(2) [of "ensure_data w st"] that by (simp add: ix_def)
    show "visit_spec n g v ws (update_lowlink v w b)"
      if "w \<in> g_nodes g" "ix st w = 0" "strongconnect n g w (ensure_data w st) = Some (Inr b)" for b
      using 4(3) [of "ensure_data w st" "Inr b" b] that by (simp add: ix_def)
    show "visit_spec n g v ws (update_lowlink v w (ensure_data w st))"
      if "w \<in> g_nodes g" "ix st w \<noteq> 0" "os st w"
      using 4(4) [of "ensure_data w st"] that by (simp add: ix_def os_def)
    show "visit_spec n g v ws (ensure_data w st)" if "w \<in> g_nodes g" "ix st w \<noteq> 0" "\<not> os st w"
      using 4(5) [of "ensure_data w st"] that by (simp add: ix_def os_def)
  qed
qed

lemma ix_initial [simp]: "ix initial x = 0" "ll initial x = 0" "os initial x = False"
  by (simp_all add: ix_def ll_def os_def get_data_def initial_def zero_vdata_def)

lemma initial_fields [simp]:
  "next_index initial = 1" "S initial = []" "sccs_list initial = []"
  by (simp_all add: initial_def)

lemma Inv_initial:
  assumes "finite (g_nodes g)" "Suc (card (g_nodes g)) < 2 ^ 64"
  shows "Inv g [] initial"
proof -
  have "whites g initial = g_nodes g" by (simp add: whites_def)
  then have "inv_num g initial" using assms by (intro inv_numI) simp_all
  moreover have "inv_stack initial"
    by (rule inv_stackI) (simp_all add: emitted_def)
  moreover have "inv_gray g [] initial"
    by (rule inv_grayI) simp_all
  moreover have "inv_reach g initial"
    by (rule inv_reachI) simp_all
  moreover have "inv_sccs g initial"
    by (simp add: inv_sccs_def topo_def disjoint_list_def)
  ultimately show ?thesis by (simp add: Inv_def)
qed

lemma unvisited_test: "(data st v = None \<or> index (get_data st v) = 0) = (ix st v = 0)"
  by (cases "data st v") (simp_all add: ix_def get_data_def zero_vdata_def)

lemma sccs_roots_spec:
  assumes "Inv g [] st" "set vs \<subseteq> g_nodes g" "card (whites g st) \<le> n"
  shows "\<exists>st'. sccs_roots n g vs st = Some (Inr st') \<and> Inv g [] st' \<and> keeps [] st st' \<and>
           (\<forall>v\<in>set vs. ix st' v \<noteq> 0)"
  using assms
proof (induction vs arbitrary: st)
  case Nil
  then show ?case by simp
next
  case (Cons v vs)
  show ?case
  proof (cases "ix st v = 0")
    case True
    have "sc_spec n g v st" by (rule strongconnect_visit_spec(1))
    then obtain st1 where st1: "strongconnect n g v st = Some (Inr st1)" "sc_post g [] v st st1"
      using Cons.prems True unfolding sc_spec_def by auto
    note p = sc_postD [OF st1(2)]
    have k1: "keeps [] st st1" using p(2) by (rule keeps_subset) simp
    have fin: "finite (g_nodes g)" using inv_numD(5) [OF InvD(1) [OF Cons.prems(1)]] .
    have c1: "card (whites g st1) \<le> n" using whites_mono [OF k1 fin] Cons.prems(3) by simp
    obtain st' where st': "sccs_roots n g vs st1 = Some (Inr st')" "Inv g [] st'" "keeps [] st1 st'"
        "\<forall>v\<in>set vs. ix st' v \<noteq> 0"
      using Cons.IH [OF p(1) _ c1] Cons.prems(2) by auto
    have "ix st1 v \<noteq> 0" using p(3) inv_numD(1) [OF InvD(1) [OF Cons.prems(1)]] by simp
    then have "ix st' v \<noteq> 0" using keepsD(2) [OF st'(3), of v] by simp
    moreover have "sccs_roots n g (v # vs) st = Some (Inr st')"
      using True st1(1) st'(1) by (simp add: unvisited_test)
    ultimately show ?thesis using st'(2,3,4) k1 keeps_trans by auto
  next
    case False
    obtain st' where st': "sccs_roots n g vs st = Some (Inr st')" "Inv g [] st'" "keeps [] st st'"
        "\<forall>v\<in>set vs. ix st' v \<noteq> 0"
      using Cons.IH [OF Cons.prems(1) _ Cons.prems(3)] Cons.prems(2) by auto
    have "ix st' v \<noteq> 0" using keepsD(2) [OF st'(3), of v] False by simp
    moreover have "sccs_roots n g (v # vs) st = Some (Inr st')"
      using False st'(1) by (simp add: unvisited_test)
    ultimately show ?thesis using st'(2,3,4) by auto
  qed
qed

text \<open>The list of components in the order of emission.\<close>

lemma sccs_roots_result:
  assumes "set vs = g_nodes g" "card (g_nodes g) \<le> n" "Suc (card (g_nodes g)) < 2 ^ 64"
  shows "\<exists>st'. sccs_roots n g vs initial = Some (Inr st') \<and>
           \<Union> (set (sccs_list st')) = g_nodes g \<and>
           (\<forall>C\<in>set (sccs_list st'). is_scc g C) \<and> topo g (sccs_list st') \<and> disjoint_list (sccs_list st')"
proof -
  have fin: "finite (g_nodes g)" using assms(1) by (metis List.finite_set)
  have "whites g initial = g_nodes g" by (simp add: whites_def)
  then have c: "card (whites g initial) \<le> n" using assms(2) by simp
  obtain st' where st': "sccs_roots n g vs initial = Some (Inr st')" "Inv g [] st'"
      "\<forall>v\<in>set vs. ix st' v \<noteq> 0"
    using sccs_roots_spec [OF Inv_initial [OF fin assms(3)] _ c, of vs] assms(1) by auto
  have S: "S st' = []" using gray_empty_stack [OF InvD(3) [OF st'(2)]] .
  have "x \<in> emitted st'" if "x \<in> g_nodes g" for x
    using inv_stackD(3) [OF InvD(2) [OF st'(2)], of x] st'(3) that assms(1) S by auto
  moreover have "x \<in> g_nodes g" if "x \<in> emitted st'" for x
    using inv_stackD(3) [OF InvD(2) [OF st'(2)], of x] inv_numD(4) [OF InvD(1) [OF st'(2)], of x] that
    by blast
  ultimately have "\<Union> (set (sccs_list st')) = g_nodes g"
    unfolding emitted_def by blast
  then show ?thesis using st'(1) InvD(5) [OF st'(2)] by (auto simp: inv_sccs_def)
qed

lemma disjoint_list_rev: "disjoint_list M \<Longrightarrow> disjoint_list (rev M)"
  unfolding disjoint_list_def
proof (intro allI impI)
  fix i j
  assume d: "\<forall>i<length M. \<forall>j<length M. i \<noteq> j \<longrightarrow> M ! i \<inter> M ! j = {}"
    and i: "i < length (rev M)" and j: "j < length (rev M)" and ne: "i \<noteq> j"
  have "length M - Suc i < length M" "length M - Suc j < length M" "length M - Suc i \<noteq> length M - Suc j"
    using i j ne by auto
  then show "rev M ! i \<inter> rev M ! j = {}"
    using d i j by (simp add: rev_nth)
qed

lemma topo_rev_topological:
  assumes t: "topo g M" and d: "disjoint_list M"
  shows "topological (edges g) (rev M)"
  unfolding topological_def
proof (intro allI impI ballI)
  fix i j x y
  assume i: "i < length (rev M)" and j: "j < length (rev M)"
    and x: "x \<in> rev M ! i" and y: "y \<in> rev M ! j" and e: "(x, y) \<in> edges g"
  let ?a = "length M - Suc i" and ?b = "length M - Suc j"
  have a: "?a < length M" "x \<in> M ! ?a" using i x by (simp_all add: rev_nth)
  have b: "?b < length M" "y \<in> M ! ?b" using j y by (simp_all add: rev_nth)
  have "y \<in> \<Union> (set (take (Suc ?a) M))"
    using t a e unfolding topo_def by blast
  then obtain c where c: "c < Suc ?a" "c < length M" "y \<in> M ! c"
    by (auto simp: in_set_conv_nth)
  have "c = ?b"
  proof (rule ccontr)
    assume "c \<noteq> ?b"
    then have "M ! c \<inter> M ! ?b = {}" using d c(2) b(1) unfolding disjoint_list_def by blast
    then show False using c(3) b(2) by blast
  qed
  then show "i \<le> j" using c(1) i j by simp
qed

lemma edges_graph_of:
  assumes sigmas: "set sigmas = dom (intersections cg)"
    and vals: "\<forall>w\<in>nodes cg. is_Value (instr_of fn w)"
  shows "edges (graph_of fn cg sigmas) = successor_relation fn cg"
proof -
  have f: "w \<in> set (futuresUsedBy cg sigmas v) \<longleftrightarrow> (\<exists>op. intersections cg w = Some (SymbolicIntersection op v))"
    for v w
  proof (cases "intersections cg w")
    case None
    then show ?thesis by (simp add: futuresUsedBy_def)
  next
    case (Some isec)
    then have "w \<in> set sigmas" using sigmas by auto
    then show ?thesis using Some by (cases isec) (auto simp: futuresUsedBy_def)
  qed
  show ?thesis
    unfolding edges_def successor_relation_def succs_def
    using f vals by (auto simp: graph_of_def)
qed

lemma is_scc_component:
  "is_scc g C \<Longrightarrow> strongly_connected_component (edges g) (g_nodes g) C"
  unfolding is_scc_def strongly_connected_component_def reach_def by simp

text \<open>
  C7. Let the loops over the maps meet every node and every sigma node with an
  intersection, let every node be a value, and let the graph have fewer than
  \<open>2 ^ 64 - 1\<close> nodes. With a recursion depth of at least the number of nodes,
  \<open>sccs\<close> returns a list of components that partition the nodes of the graph, each
  a strongly connected component of the successor relation (referrers in the graph,
  and an edge from a value to every sigma node whose symbolic intersection refers to
  it), and in topological order: no edge leads from a component to an earlier one.
\<close>

theorem sccs_topological_components:
  assumes order: "set order = nodes cg"
    and sigmas: "set sigmas = dom (intersections cg)"
    and vals: "\<forall>w\<in>nodes cg. is_Value (instr_of fn w)"
    and depth: "card (nodes cg) \<le> depth"
    and small: "Suc (card (nodes cg)) < 2 ^ 64"
  shows "\<exists>L. sccs fn cg sigmas order depth = Some (Inr L) \<and>
           \<Union> (set L) = nodes cg \<and> disjoint_list L \<and>
           (\<forall>C\<in>set L. strongly_connected_component (successor_relation fn cg) (nodes cg) C) \<and>
           topological (successor_relation fn cg) L"
proof -
  let ?g = "graph_of fn cg sigmas"
  have n: "g_nodes ?g = nodes cg" by (simp add: graph_of_def)
  have E: "edges ?g = successor_relation fn cg" using sigmas vals by (rule edges_graph_of)
  obtain st where st: "sccs_roots depth ?g order initial = Some (Inr st)"
      "\<Union> (set (sccs_list st)) = g_nodes ?g" "\<forall>C\<in>set (sccs_list st). is_scc ?g C"
      "topo ?g (sccs_list st)" "disjoint_list (sccs_list st)"
    using sccs_roots_result [of order ?g depth] order depth small n by auto
  let ?L = "rev (sccs_list st)"
  have "sccs fn cg sigmas order depth = Some (Inr ?L)" using st(1) by (simp add: sccs_def)
  moreover have "\<Union> (set ?L) = nodes cg" using st(2) n by simp
  moreover have "disjoint_list ?L" using st(5) by (rule disjoint_list_rev)
  moreover have "\<forall>C\<in>set ?L. strongly_connected_component (successor_relation fn cg) (nodes cg) C"
    using st(3) is_scc_component [of ?g] E n by auto
  moreover have "topological (successor_relation fn cg) ?L"
    using topo_rev_topological [OF st(4,5)] E by simp
  ultimately show ?thesis by blast
qed

lemma example_loop_sccs:
  "sccs example_loop_fn example_loop_graph [] [0, 1, 2, 3] (Suc (Suc (Suc (Suc 0)))) =
     Some (Inr [{1}, {0}, {2, 3}])"
  by (simp add: sccs_def graph_of_def futuresUsedBy_def example_loop_fn_def example_loop_graph_def
      initial_def enter_def ensure_data_def get_data_def zero_vdata_def update_lowlink_def finish_def
      Let_def insert_commute)

theorem sccs_topological_components_witness:
  "set [0, 1, 2, 3] = nodes example_loop_graph \<and>
   set [] = dom (intersections example_loop_graph) \<and>
   is_Value (instr_of example_loop_fn 0) \<and> is_Value (instr_of example_loop_fn 1) \<and>
   is_Value (instr_of example_loop_fn 2) \<and> is_Value (instr_of example_loop_fn 3) \<and>
   card (nodes example_loop_graph) \<le> Suc (Suc (Suc (Suc 0))) \<and>
   Suc (card (nodes example_loop_graph)) < 2 ^ 64 \<and>
   sccs example_loop_fn example_loop_graph [] [0, 1, 2, 3] (Suc (Suc (Suc (Suc 0)))) =
     Some (Inr [{1}, {0}, {2, 3}]) \<and>
   \<Union> (set [{1}, {0}, {2, 3}]) = nodes example_loop_graph \<and>
   disjoint_list [{1}, {0}, {2, 3}] \<and>
   strongly_connected_component (successor_relation example_loop_fn example_loop_graph)
     (nodes example_loop_graph) {1} \<and>
   strongly_connected_component (successor_relation example_loop_fn example_loop_graph)
     (nodes example_loop_graph) {0} \<and>
   strongly_connected_component (successor_relation example_loop_fn example_loop_graph)
     (nodes example_loop_graph) {2, 3} \<and>
   topological (successor_relation example_loop_fn example_loop_graph) [{1}, {0}, {2, 3}]"
proof -
  have v: "is_Value (instr_of example_loop_fn 0)" "is_Value (instr_of example_loop_fn 1)"
    "is_Value (instr_of example_loop_fn 2)" "is_Value (instr_of example_loop_fn 3)"
    by (simp_all add: example_loop_fn_def)
  have h: "set [0, 1, 2, 3] = nodes example_loop_graph"
    "set [] = dom (intersections example_loop_graph)"
    "\<forall>w\<in>nodes example_loop_graph. is_Value (instr_of example_loop_fn w)"
    "card (nodes example_loop_graph) \<le> Suc (Suc (Suc (Suc 0)))"
    "Suc (card (nodes example_loop_graph)) < 2 ^ 64"
    using v by (auto simp: example_loop_graph_def)
  obtain L where L: "sccs example_loop_fn example_loop_graph [] [0, 1, 2, 3] (Suc (Suc (Suc (Suc 0)))) =
        Some (Inr L)"
      "\<Union> (set L) = nodes example_loop_graph" "disjoint_list L"
      "\<forall>C\<in>set L. strongly_connected_component
         (successor_relation example_loop_fn example_loop_graph) (nodes example_loop_graph) C"
      "topological (successor_relation example_loop_fn example_loop_graph) L"
    using sccs_topological_components [OF h] by blast
  have eq: "L = [{1}, {0}, {2, 3}]" using L(1) example_loop_sccs by simp
  have c: "strongly_connected_component (successor_relation example_loop_fn example_loop_graph)
        (nodes example_loop_graph) {1}"
    "strongly_connected_component (successor_relation example_loop_fn example_loop_graph)
        (nodes example_loop_graph) {0}"
    "strongly_connected_component (successor_relation example_loop_fn example_loop_graph)
        (nodes example_loop_graph) {2, 3}"
    using L(4) unfolding eq by simp_all
  show ?thesis
    using v h(1,2,4,5) example_loop_sccs L(2,3,5) c unfolding eq by blast
qed

end
